theory Spec2Isabelle
  imports Main "HOL-Library.Word" "HOL-Library.Sublist"
begin

unbundle bit_operations_syntax

chapter \<open>Lexical primitives of peg.h: UTF-8 codec, escape resolver, prefix trie\<close>

section \<open>The model\<close>

text \<open>
  A \<^verbatim>\<open>char\<close> is an 8-bit word, \<^verbatim>\<open>char32_t\<close> a 32-bit word, \<^verbatim>\<open>size_t\<close> a natural number
  (no index or count of a returning call below exceeds the length of its buffer, so none
  wraps), and \<^verbatim>\<open>int\<close> a 32-bit word whose arithmetic wraps around. Overflow of \<^verbatim>\<open>int\<close>
  is undefined in C++; wrap-around is what the usual compilers produce, and only the
  digit parsers on more than seven hexadecimal or ten decimal digits reach it. A buffer
  \<^verbatim>\<open>const char *s, size_t n\<close> is the list of its bytes together with \<open>n\<close>;
  \<^verbatim>\<open>s + i\<close> is \<open>drop i s\<close>. The callers' contract is \<open>n \<le> length s\<close>: every read
  \<open>s ! k\<close> below is guarded by \<open>k < n\<close>, as in the source.

  Names are those of the source, with four exceptions: the overload of
  \<^verbatim>\<open>encode_codepoint\<close> that writes into a buffer is \<open>encode_codepoint_buff\<close>; the field
  \<^verbatim>\<open>done\<close> of \<^verbatim>\<open>Info\<close> is \<open>done'\<close> and the local variable \<^verbatim>\<open>done\<close> of \<^verbatim>\<open>Trie::match\<close> is \<open>dn\<close>;
  the member \<^verbatim>\<open>dic_\<close> is \<open>dic\<close>; and \<^verbatim>\<open>Trie::match\<close> is \<open>Trie_match\<close>, since \<open>match\<close> is
  the field of \<open>Info\<close>. The loops are the functions named \<open>..._loop\<close>.
\<close>

type_synonym byte = "8 word"
type_synonym char32 = "32 word"
type_synonym int32 = "32 word"

subsection \<open>UTF-8 functions\<close>

definition codepoint_length :: "byte list \<Rightarrow> nat \<Rightarrow> nat" where
  "codepoint_length s8 l =
     (if l \<noteq> 0 then
        (let b = s8 ! 0 in
         if b AND 0x80 = 0 then 1
         else if b AND 0xE0 = 0xC0 \<and> 2 \<le> l then 2
         else if b AND 0xF0 = 0xE0 \<and> 3 \<le> l then 3
         else if b AND 0xF8 = 0xF0 \<and> 4 \<le> l then 4
         else 0)
      else 0)"

text \<open>
  The \<^verbatim>\<open>for\<close> loop of \<^verbatim>\<open>codepoint_count\<close>: the body counts, then the increment adds
  \<^verbatim>\<open>codepoint_length(s8 + i, l - i)\<close> to \<open>i\<close>. Nothing in the source bounds the number of
  iterations, so the loop is a partial function: \<open>None\<close> is "does not return".
\<close>

partial_function (option) codepoint_count_loop ::
  "byte list \<Rightarrow> nat \<Rightarrow> nat \<Rightarrow> nat \<Rightarrow> nat option" where
  "codepoint_count_loop s8 l i count =
     (if i < l then
        codepoint_count_loop s8 l (i + codepoint_length (drop i s8) (l - i)) (count + 1)
      else Some count)"

definition codepoint_count :: "byte list \<Rightarrow> nat \<Rightarrow> nat option" where
  "codepoint_count s8 l = codepoint_count_loop s8 l 0 0"

text \<open>
  \<^verbatim>\<open>size_t encode_codepoint(char32_t cp, char *buff)\<close>: the number of bytes written and the
  buffer after the writes. \<^verbatim>\<open>static_cast<char>\<close> keeps the low eight bits (\<open>ucast\<close>).
\<close>

definition encode_codepoint_buff :: "char32 \<Rightarrow> byte list \<Rightarrow> nat \<times> byte list" where
  "encode_codepoint_buff cp buff =
     (if cp < 0x0080 then
        (1, buff[0 := ucast (cp AND 0x7F)])
      else if cp < 0x0800 then
        (2, buff[0 := ucast (0xC0 OR (drop_bit 6 cp AND 0x1F)),
                 1 := ucast (0x80 OR (cp AND 0x3F))])
      else if cp < 0xD800 then
        (3, buff[0 := ucast (0xE0 OR (drop_bit 12 cp AND 0xF)),
                 1 := ucast (0x80 OR (drop_bit 6 cp AND 0x3F)),
                 2 := ucast (0x80 OR (cp AND 0x3F))])
      else if cp < 0xE000 then
        (0, buff)
      else if cp < 0x10000 then
        (3, buff[0 := ucast (0xE0 OR (drop_bit 12 cp AND 0xF)),
                 1 := ucast (0x80 OR (drop_bit 6 cp AND 0x3F)),
                 2 := ucast (0x80 OR (cp AND 0x3F))])
      else if cp < 0x110000 then
        (4, buff[0 := ucast (0xF0 OR (drop_bit 18 cp AND 0x7)),
                 1 := ucast (0x80 OR (drop_bit 12 cp AND 0x3F)),
                 2 := ucast (0x80 OR (drop_bit 6 cp AND 0x3F)),
                 3 := ucast (0x80 OR (cp AND 0x3F))])
      else (0, buff))"

text \<open>
  \<^verbatim>\<open>std::string encode_codepoint(char32_t cp)\<close>: the first \<open>l\<close> bytes of a four-byte local
  buffer. The source leaves the buffer uninitialised; only bytes that were written are
  returned (lemma \<open>encode_codepoint_buff_indep\<close> below), so it starts here as zeros.
\<close>

definition encode_codepoint :: "char32 \<Rightarrow> byte list" where
  "encode_codepoint cp =
     (let (l, buff) = encode_codepoint_buff cp [0, 0, 0, 0] in take l buff)"

text \<open>
  \<^verbatim>\<open>bool decode_codepoint(const char *s8, size_t l, size_t &bytes, char32_t &cp)\<close>:
  \<open>Some (bytes, cp)\<close> when it returns true, \<open>None\<close> when it returns false (and leaves both
  out-parameters alone). \<^verbatim>\<open>s8[k] & m\<close> with \<open>m < 0x80\<close> is the same for a signed and an
  unsigned \<^verbatim>\<open>char\<close>.
\<close>

definition decode_codepoint :: "byte list \<Rightarrow> nat \<Rightarrow> (nat \<times> char32) option" where
  "decode_codepoint s8 l =
     (if l \<noteq> 0 then
        (let b = s8 ! 0 in
         if b AND 0x80 = 0 then Some (1, ucast b)
         else if b AND 0xE0 = 0xC0 then
           (if 2 \<le> l then
              Some (2, push_bit 6 (ucast (s8 ! 0 AND 0x1F)) OR ucast (s8 ! 1 AND 0x3F))
            else None)
         else if b AND 0xF0 = 0xE0 then
           (if 3 \<le> l then
              Some (3, push_bit 12 (ucast (s8 ! 0 AND 0x0F)) OR
                       push_bit 6 (ucast (s8 ! 1 AND 0x3F)) OR
                       ucast (s8 ! 2 AND 0x3F))
            else None)
         else if b AND 0xF8 = 0xF0 then
           (if 4 \<le> l then
              Some (4, push_bit 18 (ucast (s8 ! 0 AND 0x07)) OR
                       push_bit 12 (ucast (s8 ! 1 AND 0x3F)) OR
                       push_bit 6 (ucast (s8 ! 2 AND 0x3F)) OR
                       ucast (s8 ! 3 AND 0x3F))
            else None)
         else None)
      else None)"

subsection \<open>resolve\_escape\_sequence\<close>

text \<open>
  \<^verbatim>\<open>bool is_hex(char c, int &v)\<close> and \<^verbatim>\<open>bool is_digit(char c, int &v)\<close>: \<open>Some v\<close> for true.
  The characters are written by their ASCII codes: \<^verbatim>\<open>'0'\<close> is 0x30, \<^verbatim>\<open>'9'\<close> 0x39,
  \<^verbatim>\<open>'a'\<close> 0x61, \<^verbatim>\<open>'f'\<close> 0x66, \<^verbatim>\<open>'A'\<close> 0x41, \<^verbatim>\<open>'F'\<close> 0x46.
\<close>

definition is_hex :: "byte \<Rightarrow> int32 option" where
  "is_hex c =
     (if 0x30 \<le> c \<and> c \<le> 0x39 then Some (ucast c - 0x30)
      else if 0x61 \<le> c \<and> c \<le> 0x66 then Some (ucast c - 0x61 + 10)
      else if 0x41 \<le> c \<and> c \<le> 0x46 then Some (ucast c - 0x41 + 10)
      else None)"

definition is_digit :: "byte \<Rightarrow> int32 option" where
  "is_digit c = (if 0x30 \<le> c \<and> c \<le> 0x39 then Some (ucast c - 0x30) else None)"

function parse_hex_loop :: "byte list \<Rightarrow> nat \<Rightarrow> nat \<Rightarrow> int32 \<Rightarrow> int32 \<times> nat" where
  "parse_hex_loop s n i ret =
     (if i < n then
        (case is_hex (s ! i) of
           Some val \<Rightarrow> parse_hex_loop s n (i + 1) (ret * 16 + val)
         | None \<Rightarrow> (ret, i))
      else (ret, i))"
  by pat_completeness auto
termination
  by (relation "measure (\<lambda>(s, n, i, ret). n - i)") auto

definition parse_hex_number :: "byte list \<Rightarrow> nat \<Rightarrow> nat \<Rightarrow> int32 \<times> nat" where
  "parse_hex_number s n i = parse_hex_loop s n i 0"

function parse_octal_loop :: "byte list \<Rightarrow> nat \<Rightarrow> nat \<Rightarrow> int32 \<Rightarrow> int32 \<times> nat" where
  "parse_octal_loop s n i ret =
     (if i < n then
        (case is_digit (s ! i) of
           Some val \<Rightarrow> parse_octal_loop s n (i + 1) (ret * 8 + val)
         | None \<Rightarrow> (ret, i))
      else (ret, i))"
  by pat_completeness auto
termination
  by (relation "measure (\<lambda>(s, n, i, ret). n - i)") auto

definition parse_octal_number :: "byte list \<Rightarrow> nat \<Rightarrow> nat \<Rightarrow> int32 \<times> nat" where
  "parse_octal_number s n i = parse_octal_loop s n i 0"

declare parse_hex_loop.simps [simp del] parse_octal_loop.simps [simp del]

lemma parse_hex_loop_ge: "i \<le> snd (parse_hex_loop s n i ret)"
proof (induction s n i ret rule: parse_hex_loop.induct)
  case (1 s n i ret)
  show ?case
  proof (cases "i < n")
    case True
    then show ?thesis
      using 1 by (subst parse_hex_loop.simps) (auto split: option.splits dest: Suc_leD)
  next
    case False
    then show ?thesis by (subst parse_hex_loop.simps) simp
  qed
qed

lemma parse_octal_loop_ge: "i \<le> snd (parse_octal_loop s n i ret)"
proof (induction s n i ret rule: parse_octal_loop.induct)
  case (1 s n i ret)
  show ?case
  proof (cases "i < n")
    case True
    then show ?thesis
      using 1 by (subst parse_octal_loop.simps) (auto split: option.splits dest: Suc_leD)
  next
    case False
    then show ?thesis by (subst parse_octal_loop.simps) simp
  qed
qed

text \<open>
  The \<^verbatim>\<open>throw std::runtime_error("Invalid escape sequence...")\<close> is the error value
  \<open>MalformedEscape\<close>; it is the only failure of the function.
\<close>

datatype error = MalformedEscape

text \<open>
  The \<^verbatim>\<open>while (i < n)\<close> loop of \<^verbatim>\<open>resolve_escape_sequence\<close>, with the output string \<open>r\<close>.
  The \<^verbatim>\<open>switch\<close> is the chain of tests on \<open>s ! (i + 1)\<close>, the character after the backslash
  (0x5C): \<^verbatim>\<open>f n r t v ' " [ ] \\<close> append one fixed byte, \<^verbatim>\<open>x\<close> and \<^verbatim>\<open>u\<close> parse a
  hexadecimal number from the next position, and the default case parses an octal number
  from the character after the backslash itself.
\<close>

function resolve_loop :: "byte list \<Rightarrow> nat \<Rightarrow> nat \<Rightarrow> byte list \<Rightarrow> error + byte list" where
  "resolve_loop s n i r =
     (if i < n then
        (let ch = s ! i in
         if ch = 0x5C then
           (if i + 1 = n then Inl MalformedEscape
            else if s ! (i + 1) = 0x66 then resolve_loop s n (i + 2) (r @ [0x0C])
            else if s ! (i + 1) = 0x6E then resolve_loop s n (i + 2) (r @ [0x0A])
            else if s ! (i + 1) = 0x72 then resolve_loop s n (i + 2) (r @ [0x0D])
            else if s ! (i + 1) = 0x74 then resolve_loop s n (i + 2) (r @ [0x09])
            else if s ! (i + 1) = 0x76 then resolve_loop s n (i + 2) (r @ [0x0B])
            else if s ! (i + 1) = 0x27 then resolve_loop s n (i + 2) (r @ [0x27])
            else if s ! (i + 1) = 0x22 then resolve_loop s n (i + 2) (r @ [0x22])
            else if s ! (i + 1) = 0x5B then resolve_loop s n (i + 2) (r @ [0x5B])
            else if s ! (i + 1) = 0x5D then resolve_loop s n (i + 2) (r @ [0x5D])
            else if s ! (i + 1) = 0x5C then resolve_loop s n (i + 2) (r @ [0x5C])
            else if s ! (i + 1) = 0x78 \<or> s ! (i + 1) = 0x75 then
              resolve_loop s n (snd (parse_hex_number s n (i + 2)))
                (r @ encode_codepoint (fst (parse_hex_number s n (i + 2))))
            else
              resolve_loop s n (snd (parse_octal_number s n (i + 1)))
                (r @ encode_codepoint (fst (parse_octal_number s n (i + 1)))))
         else resolve_loop s n (i + 1) (r @ [ch]))
      else Inr r)"
  by pat_completeness auto
termination
proof (relation "measure (\<lambda>(s, n, i, r). n - i)", simp_all, goal_cases)
  case (1 s n i x)
  have "Suc (Suc i) \<le> snd (parse_hex_number s n (Suc (Suc i)))"
    unfolding parse_hex_number_def by (rule parse_hex_loop_ge)
  with \<open>i < n\<close> show ?case by linarith
next
  case (2 s n i x)
  have "Suc i \<le> snd (parse_octal_number s n (Suc i))"
    unfolding parse_octal_number_def by (rule parse_octal_loop_ge)
  with \<open>i < n\<close> show ?case by linarith
qed

declare resolve_loop.simps [simp del]

definition resolve_escape_sequence :: "byte list \<Rightarrow> nat \<Rightarrow> error + byte list" where
  "resolve_escape_sequence s n = resolve_loop s n 0 []"

subsection \<open>Trie\<close>

text \<open>
  \<^verbatim>\<open>struct Info { bool done; bool match; }\<close> and the dictionary
  \<^verbatim>\<open>std::map<std::string, Info> dic_\<close>, a finite map from strings to \<open>Info\<close>.
\<close>

record Info =
  done' :: bool
  match :: bool

type_synonym dic = "string \<rightharpoonup> Info"

text \<open>The body of the inner loop of the constructor, for one \<open>item\<close> and one \<open>len\<close>.\<close>

definition trie_insert :: "string \<Rightarrow> nat \<Rightarrow> dic \<Rightarrow> dic" where
  "trie_insert item len dic =
     (let last = (len = length item);
          sv = take len item
      in case dic sv of
           None \<Rightarrow> dic(sv \<mapsto> \<lparr>done' = last, match = last\<rparr>)
         | Some info \<Rightarrow>
             if last then dic(sv \<mapsto> info\<lparr>match := True\<rparr>)
             else dic(sv \<mapsto> info\<lparr>done' := False\<rparr>))"

text \<open>\<^verbatim>\<open>for (size_t len = 1; len <= item.size(); len++)\<close>\<close>

function trie_item_loop :: "string \<Rightarrow> nat \<Rightarrow> dic \<Rightarrow> dic" where
  "trie_item_loop item len dic =
     (if len \<le> length item then trie_item_loop item (len + 1) (trie_insert item len dic)
      else dic)"
  by pat_completeness auto
termination
  by (relation "measure (\<lambda>(item, len, dic). Suc (length item) - len)") auto

declare trie_item_loop.simps [simp del]

text \<open>\<^verbatim>\<open>for (const auto &item : items)\<close>\<close>

fun trie_items_loop :: "string list \<Rightarrow> dic \<Rightarrow> dic" where
  "trie_items_loop [] dic = dic"
| "trie_items_loop (item # items) dic = trie_items_loop items (trie_item_loop item 1 dic)"

definition Trie :: "string list \<Rightarrow> dic" where
  "Trie items = trie_items_loop items Map.empty"

text \<open>
  The \<^verbatim>\<open>while (!done && len <= text_len)\<close> loop of \<^verbatim>\<open>Trie::match\<close>. The view
  \<^verbatim>\<open>std::string_view sv(text, len)\<close> is \<open>take len text\<close>; the loop keeps \<open>len \<le> text_len\<close>,
  and \<open>text_len\<close> is at most the length of \<open>text\<close> by the caller's contract.
\<close>

function match_loop :: "dic \<Rightarrow> string \<Rightarrow> nat \<Rightarrow> nat \<Rightarrow> bool \<Rightarrow> nat \<Rightarrow> nat" where
  "match_loop dic text text_len match_len dn len =
     (if \<not> dn \<and> len \<le> text_len then
        (case dic (take len text) of
           None \<Rightarrow> match_loop dic text text_len match_len True (len + 1)
         | Some info \<Rightarrow>
             match_loop dic text text_len
               (if match info then len else match_len)
               (if done' info then True else dn)
               (len + 1))
      else match_len)"
  by pat_completeness auto
termination
  by (relation "measure (\<lambda>(dic, text, text_len, match_len, dn, len). Suc text_len - len)") auto

declare match_loop.simps [simp del]

definition Trie_match :: "dic \<Rightarrow> string \<Rightarrow> nat \<Rightarrow> nat" where
  "Trie_match dic text text_len = match_loop dic text text_len 0 False 1"

subsection \<open>Notions used to state the properties\<close>

text \<open>
  These definitions are not part of the source. They say, without the loops, what the
  source's loops are proved to compute.
\<close>

text \<open>
  The digit tests of \<^verbatim>\<open>is_hex\<close> and \<^verbatim>\<open>is_digit\<close> as predicates, the value of a hexadecimal digit,
  and the value of a digit string in radix 16 and in radix 8 as a natural number. In
  \<open>radix8\<close> every decimal digit counts with its own value, 8 and 9 included.
\<close>

definition hex_digit :: "byte \<Rightarrow> bool" where
  "hex_digit c \<longleftrightarrow> (0x30 \<le> c \<and> c \<le> 0x39) \<or> (0x61 \<le> c \<and> c \<le> 0x66) \<or> (0x41 \<le> c \<and> c \<le> 0x46)"

definition dec_digit :: "byte \<Rightarrow> bool" where
  "dec_digit c \<longleftrightarrow> 0x30 \<le> c \<and> c \<le> 0x39"

definition hex_digit_value :: "byte \<Rightarrow> nat" where
  "hex_digit_value c =
     (if c \<le> 0x39 then unat c - 48 else if 0x61 \<le> c then unat c - 87 else unat c - 55)"

definition radix16 :: "byte list \<Rightarrow> nat" where
  "radix16 ds = foldl (\<lambda>v c. v * 16 + hex_digit_value c) 0 ds"

definition radix8 :: "byte list \<Rightarrow> nat" where
  "radix8 ds = foldl (\<lambda>v c. v * 8 + (unat c - 48)) 0 ds"

text \<open>The single-character escapes of the \<^verbatim>\<open>switch\<close>, as a table.\<close>

definition fixed_escape :: "byte \<Rightarrow> byte option" where
  "fixed_escape c =
     (if c = 0x66 then Some 0x0C else if c = 0x6E then Some 0x0A
      else if c = 0x72 then Some 0x0D else if c = 0x74 then Some 0x09
      else if c = 0x76 then Some 0x0B else if c = 0x27 then Some 0x27
      else if c = 0x22 then Some 0x22 else if c = 0x5B then Some 0x5B
      else if c = 0x5D then Some 0x5D else if c = 0x5C then Some 0x5C else None)"

text \<open>The number of backslashes (0x5C) that end the input.\<close>

definition trailing_backslashes :: "byte list \<Rightarrow> nat" where
  "trailing_backslashes s = length (takeWhile (\<lambda>c. c = 0x5C) (rev s))"

text \<open>
  The positions at which the loop of \<^verbatim>\<open>resolve_escape_sequence\<close> begins an iteration (or leaves
  the loop), one rule for each way an iteration moves on: a plain character, a
  single-character escape, a hexadecimal escape, an octal escape. A backslash at such a
  position begins an escape; a backslash that an escape has consumed is passed over.
\<close>

inductive visits :: "byte list \<Rightarrow> nat \<Rightarrow> nat \<Rightarrow> bool" for s :: "byte list" and n :: nat where
  start: "visits s n 0"
| plain: "visits s n i \<Longrightarrow> i < n \<Longrightarrow> s ! i \<noteq> 0x5C \<Longrightarrow> visits s n (i + 1)"
| fixed: "visits s n i \<Longrightarrow> i + 1 < n \<Longrightarrow> s ! i = 0x5C \<Longrightarrow>
    s ! (i + 1) \<in> {0x66, 0x6E, 0x72, 0x74, 0x76, 0x27, 0x22, 0x5B, 0x5D, 0x5C} \<Longrightarrow>
    visits s n (i + 2)"
| hex: "visits s n i \<Longrightarrow> i + 1 < n \<Longrightarrow> s ! i = 0x5C \<Longrightarrow>
    s ! (i + 1) \<in> {0x78, 0x75} \<Longrightarrow>
    visits s n (snd (parse_hex_number s n (i + 2)))"
| octal: "visits s n i \<Longrightarrow> i + 1 < n \<Longrightarrow> s ! i = 0x5C \<Longrightarrow>
    s ! (i + 1) \<notin> {0x66, 0x6E, 0x72, 0x74, 0x76, 0x27, 0x22, 0x5B, 0x5D, 0x5C, 0x78, 0x75} \<Longrightarrow>
    visits s n (snd (parse_octal_number s n (i + 1)))"

text \<open>
  The constructor of the trie sees a sequence of pairs: a nonempty prefix of an item, and
  whether it is the whole item. \<open>dic_of E\<close> is the dictionary that a set \<open>E\<close> of such pairs
  stands for, \<open>item_events item len\<close> the pairs of one item from length \<open>len\<close> on, and
  \<open>events items\<close> the pairs of all items.
\<close>

definition dic_of :: "(string \<times> bool) set \<Rightarrow> dic" where
  "dic_of E k =
     (if \<exists>b. (k, b) \<in> E then Some \<lparr>done' = ((k, False) \<notin> E), match = ((k, True) \<in> E)\<rparr>
      else None)"

definition item_events :: "string \<Rightarrow> nat \<Rightarrow> (string \<times> bool) set" where
  "item_events item len = {(take j item, j = length item) | j. len \<le> j \<and> j \<le> length item}"

definition events :: "string list \<Rightarrow> (string \<times> bool) set" where
  "events items = (\<Union>item \<in> set items. item_events item 1)"

text \<open>The lengths of the patterns that are prefixes of the text and have at least \<open>len\<close> characters.\<close>

definition hits :: "string list \<Rightarrow> string \<Rightarrow> nat \<Rightarrow> nat set" where
  "hits items text len = length ` {p \<in> set items. prefix p text \<and> len \<le> length p}"

section \<open>Facts about the codec\<close>

lemma encode_codepoint_eq:
  "encode_codepoint cp =
     (if cp < 0x80 then [ucast (cp AND 0x7F)]
      else if cp < 0x800 then
        [ucast (0xC0 OR (drop_bit 6 cp AND 0x1F)), ucast (0x80 OR (cp AND 0x3F))]
      else if cp < 0xD800 then
        [ucast (0xE0 OR (drop_bit 12 cp AND 0xF)), ucast (0x80 OR (drop_bit 6 cp AND 0x3F)),
         ucast (0x80 OR (cp AND 0x3F))]
      else if cp < 0xE000 then []
      else if cp < 0x10000 then
        [ucast (0xE0 OR (drop_bit 12 cp AND 0xF)), ucast (0x80 OR (drop_bit 6 cp AND 0x3F)),
         ucast (0x80 OR (cp AND 0x3F))]
      else if cp < 0x110000 then
        [ucast (0xF0 OR (drop_bit 18 cp AND 0x7)), ucast (0x80 OR (drop_bit 12 cp AND 0x3F)),
         ucast (0x80 OR (drop_bit 6 cp AND 0x3F)), ucast (0x80 OR (cp AND 0x3F))]
      else [])"
  by (simp add: encode_codepoint_def encode_codepoint_buff_def)

lemma encode_codepoint_buff_indep:
  assumes "length buff = 4"
  shows "(let (l, b) = encode_codepoint_buff cp buff in take l b) = encode_codepoint cp"
proof -
  obtain a b c d where "buff = [a, b, c, d]"
    using assms by (auto simp: length_Suc_conv eval_nat_numeral)
  then show ?thesis
    by (simp add: encode_codepoint_eq encode_codepoint_buff_def)
qed

subsection \<open>The four lead-byte patterns exclude each other\<close>

lemma lead2_excl:
  fixes b :: byte
  assumes "b AND 0xE0 = 0xC0"
  shows "b AND 0x80 \<noteq> 0"
proof -
  have "b AND 0x80 = (b AND 0xE0) AND 0x80" by (simp add: and.assoc)
  then show ?thesis by (simp add: assms)
qed

lemma lead3_excl:
  fixes b :: byte
  assumes "b AND 0xF0 = 0xE0"
  shows "b AND 0x80 \<noteq> 0" and "b AND 0xE0 \<noteq> 0xC0"
proof -
  have "b AND 0x80 = (b AND 0xF0) AND 0x80" by (simp add: and.assoc)
  then show "b AND 0x80 \<noteq> 0" by (simp add: assms)
  have "b AND 0xE0 = (b AND 0xF0) AND 0xE0" by (simp add: and.assoc)
  then show "b AND 0xE0 \<noteq> 0xC0" by (simp add: assms)
qed

lemma lead4_excl:
  fixes b :: byte
  assumes "b AND 0xF8 = 0xF0"
  shows "b AND 0x80 \<noteq> 0" and "b AND 0xE0 \<noteq> 0xC0" and "b AND 0xF0 \<noteq> 0xE0"
proof -
  have "b AND 0x80 = (b AND 0xF8) AND 0x80" by (simp add: and.assoc)
  then show "b AND 0x80 \<noteq> 0" by (simp add: assms)
  have "b AND 0xE0 = (b AND 0xF8) AND 0xE0" by (simp add: and.assoc)
  then show "b AND 0xE0 \<noteq> 0xC0" by (simp add: assms)
  have "b AND 0xF0 = (b AND 0xF8) AND 0xF0" by (simp add: and.assoc)
  then show "b AND 0xF0 \<noteq> 0xE0" by (simp add: assms)
qed

subsection \<open>Bits of the masks and markers\<close>

lemma bit_0x80: "bit (0x80 :: int) n \<longleftrightarrow> n = 7"
proof -
  have "(0x80 :: int) = push_bit 7 (mask 1)" by (simp add: mask_eq_exp_minus_1 push_bit_eq_mult)
  then show ?thesis by (simp only: bit_simps) auto
qed

lemma bit_0xC0: "bit (0xC0 :: int) n \<longleftrightarrow> 6 \<le> n \<and> n < 8"
proof -
  have "(0xC0 :: int) = push_bit 6 (mask 2)" by (simp add: mask_eq_exp_minus_1 push_bit_eq_mult)
  then show ?thesis by (simp only: bit_simps) auto
qed

lemma bit_0xE0: "bit (0xE0 :: int) n \<longleftrightarrow> 5 \<le> n \<and> n < 8"
proof -
  have "(0xE0 :: int) = push_bit 5 (mask 3)" by (simp add: mask_eq_exp_minus_1 push_bit_eq_mult)
  then show ?thesis by (simp only: bit_simps) auto
qed

lemma bit_0xF0: "bit (0xF0 :: int) n \<longleftrightarrow> 4 \<le> n \<and> n < 8"
proof -
  have "(0xF0 :: int) = push_bit 4 (mask 4)" by (simp add: mask_eq_exp_minus_1 push_bit_eq_mult)
  then show ?thesis by (simp only: bit_simps) auto
qed

lemma bit_0xF8: "bit (0xF8 :: int) n \<longleftrightarrow> 3 \<le> n \<and> n < 8"
proof -
  have "(0xF8 :: int) = push_bit 3 (mask 5)" by (simp add: mask_eq_exp_minus_1 push_bit_eq_mult)
  then show ?thesis by (simp only: bit_simps) auto
qed

lemma bit_0x3F: "bit (0x3F :: int) n \<longleftrightarrow> n < 6"
proof -
  have "(0x3F :: int) = mask 6" by (simp add: mask_eq_exp_minus_1 push_bit_eq_mult)
  then show ?thesis by (simp only: bit_simps) auto
qed

lemma bit_0x1F: "bit (0x1F :: int) n \<longleftrightarrow> n < 5"
proof -
  have "(0x1F :: int) = mask 5" by (simp add: mask_eq_exp_minus_1 push_bit_eq_mult)
  then show ?thesis by (simp only: bit_simps) auto
qed

lemma bit_0x0F: "bit (0x0F :: int) n \<longleftrightarrow> n < 4"
proof -
  have "(0x0F :: int) = mask 4" by (simp add: mask_eq_exp_minus_1 push_bit_eq_mult)
  then show ?thesis by (simp only: bit_simps) auto
qed

lemma bit_0x07: "bit (0x07 :: int) n \<longleftrightarrow> n < 3"
proof -
  have "(0x07 :: int) = mask 3" by (simp add: mask_eq_exp_minus_1 push_bit_eq_mult)
  then show ?thesis by (simp only: bit_simps) auto
qed

lemma bit_0x7F: "bit (0x7F :: int) n \<longleftrightarrow> n < 7"
proof -
  have "(0x7F :: int) = mask 7" by (simp add: mask_eq_exp_minus_1 push_bit_eq_mult)
  then show ?thesis by (simp only: bit_simps) auto
qed

lemmas utf8_bits = bit_0x80 bit_0xC0 bit_0xE0 bit_0xF0 bit_0xF8 bit_0x3F bit_0x1F bit_0x0F
  bit_0x07 bit_0x7F

lemma upper_bits_clear:
  fixes cp :: "'a::len word"
  assumes "cp < 2 ^ k" "k \<le> n"
  shows "\<not> bit cp n"
proof -
  have "take_bit k cp = cp" using less_mask_eq[OF assms(1)] by (simp add: take_bit_eq_mask)
  then have "bit cp n = bit (take_bit k cp) n" by simp
  then show ?thesis using assms(2) by (simp add: bit_take_bit_iff)
qed

lemma unpack2_pack2:
  fixes cp :: char32
  assumes "cp < 0x800"
  shows "push_bit 6 (ucast ((ucast (0xC0 OR (drop_bit 6 cp AND 0x1F)) :: byte) AND 0x1F)) OR
         ucast ((ucast (0x80 OR (cp AND 0x3F)) :: byte) AND 0x3F) = cp" (is "?l = _")
proof (rule bit_word_eqI)
  fix n :: nat
  have "cp < 2 ^ 11" using assms by simp
  note hi = upper_bits_clear[OF this, of n]
  consider "n < 6" | "6 \<le> n" "n < 11" | "11 \<le> n"
    by linarith
  then show "bit ?l n = bit cp n"
  proof cases
    case 1 then show ?thesis by (simp add: bit_simps utf8_bits)
  next
    case 2
    define m where "m = n - 6"
    have n: "n = 6 + m" and m: "m < 5" using 2 by (simp_all add: m_def)
    show ?thesis unfolding n using m by (simp add: bit_simps utf8_bits)
  next
    case 3 then show ?thesis using hi by (simp add: bit_simps utf8_bits)
  qed
qed

lemma unpack3_pack3:
  fixes cp :: char32
  assumes "cp < 0x10000"
  shows "push_bit 12 (ucast ((ucast (0xE0 OR (drop_bit 12 cp AND 0xF)) :: byte) AND 0x0F)) OR
         push_bit 6 (ucast ((ucast (0x80 OR (drop_bit 6 cp AND 0x3F)) :: byte) AND 0x3F)) OR
         ucast ((ucast (0x80 OR (cp AND 0x3F)) :: byte) AND 0x3F) = cp" (is "?l = _")
proof (rule bit_word_eqI)
  fix n :: nat
  have "cp < 2 ^ 16" using assms by simp
  note hi = upper_bits_clear[OF this, of n]
  consider "n < 6" | "6 \<le> n" "n < 12" | "12 \<le> n" "n < 16" | "16 \<le> n"
    by linarith
  then show "bit ?l n = bit cp n"
  proof cases
    case 1 then show ?thesis by (simp add: bit_simps utf8_bits)
  next
    case 2
    define m where "m = n - 6"
    have n: "n = 6 + m" and m: "m < 6" using 2 by (simp_all add: m_def)
    show ?thesis unfolding n using m by (simp add: bit_simps utf8_bits)
  next
    case 3
    define m where "m = n - 12"
    have n: "n = 12 + m" and m: "m < 4" using 3 by (simp_all add: m_def)
    show ?thesis unfolding n using m by (simp add: bit_simps utf8_bits)
  next
    case 4 then show ?thesis using hi by (simp add: bit_simps utf8_bits)
  qed
qed

lemma unpack4_pack4:
  fixes cp :: char32
  assumes "cp < 0x110000"
  shows "push_bit 18 (ucast ((ucast (0xF0 OR (drop_bit 18 cp AND 0x7)) :: byte) AND 0x07)) OR
         push_bit 12 (ucast ((ucast (0x80 OR (drop_bit 12 cp AND 0x3F)) :: byte) AND 0x3F)) OR
         push_bit 6 (ucast ((ucast (0x80 OR (drop_bit 6 cp AND 0x3F)) :: byte) AND 0x3F)) OR
         ucast ((ucast (0x80 OR (cp AND 0x3F)) :: byte) AND 0x3F) = cp" (is "?l = _")
proof (rule bit_word_eqI)
  fix n :: nat
  have "cp < 0x200000" using assms by (rule less_trans) simp
  then have "cp < 2 ^ 21" by simp
  note hi = upper_bits_clear[OF this, of n]
  consider "n < 6" | "6 \<le> n" "n < 12" | "12 \<le> n" "n < 18" | "18 \<le> n" "n < 21" | "21 \<le> n"
    by linarith
  then show "bit ?l n = bit cp n"
  proof cases
    case 1 then show ?thesis by (simp add: bit_simps utf8_bits)
  next
    case 2
    define m where "m = n - 6"
    have n: "n = 6 + m" and m: "m < 6" using 2 by (simp_all add: m_def)
    show ?thesis unfolding n using m by (simp add: bit_simps utf8_bits)
  next
    case 3
    define m where "m = n - 12"
    have n: "n = 12 + m" and m: "m < 6" using 3 by (simp_all add: m_def)
    show ?thesis unfolding n using m by (simp add: bit_simps utf8_bits)
  next
    case 4
    define m where "m = n - 18"
    have n: "n = 18 + m" and m: "m < 3" using 4 by (simp_all add: m_def)
    show ?thesis unfolding n using m by (simp add: bit_simps utf8_bits)
  next
    case 5 then show ?thesis using hi by (simp add: bit_simps utf8_bits)
  qed
qed

lemma pack_lead1: "(ucast (cp AND 0x7F :: char32) :: byte) AND 0x80 = 0"
  by (rule bit_word_eqI) (simp add: bit_simps utf8_bits)

lemma pack_lead2: "(ucast (0xC0 OR (x AND 0x1F) :: char32) :: byte) AND 0xE0 = 0xC0"
  by (rule bit_word_eqI) (simp add: bit_simps utf8_bits, linarith)

lemma pack_lead3: "(ucast (0xE0 OR (x AND 0xF) :: char32) :: byte) AND 0xF0 = 0xE0"
  by (rule bit_word_eqI) (simp add: bit_simps utf8_bits, linarith)

lemma pack_lead4: "(ucast (0xF0 OR (x AND 0x7) :: char32) :: byte) AND 0xF8 = 0xF0"
  by (rule bit_word_eqI) (simp add: bit_simps utf8_bits, linarith)

lemma pack_cont: "(ucast (0x80 OR (x AND 0x3F) :: char32) :: byte) AND 0xC0 = 0x80"
  by (rule bit_word_eqI) (simp add: bit_simps utf8_bits, linarith)

lemma unpack1_pack1:
  fixes cp :: char32
  assumes "cp < 0x80"
  shows "ucast (ucast (cp AND 0x7F) :: byte) = cp" (is "?l = _")
proof (rule bit_word_eqI)
  fix n :: nat
  have "cp < 2 ^ 7" using assms by simp
  note hi = upper_bits_clear[OF this, of n]
  show "bit ?l n = bit cp n"
    using hi by (cases "n < 7") (simp_all add: bit_simps utf8_bits)
qed

subsection \<open>Decoding an encoding\<close>

lemma encode_codepoint_Nil_iff:
  "encode_codepoint cp = [] \<longleftrightarrow> (0xD800 \<le> cp \<and> cp < 0xE000) \<or> 0x110000 \<le> cp"
  unfolding encode_codepoint_eq word_less_nat_alt word_le_nat_alt by simp

lemma decode_encode_codepoint:
  assumes "encode_codepoint cp \<noteq> []"
  shows "decode_codepoint (encode_codepoint cp) (length (encode_codepoint cp)) =
           Some (length (encode_codepoint cp), cp)"
proof -
  from assms have valid: "cp < 0x110000" "\<not> (0xD800 \<le> cp \<and> cp < 0xE000)"
    unfolding encode_codepoint_Nil_iff word_less_nat_alt word_le_nat_alt by simp_all
  consider (one) "cp < 0x80" | (two) "\<not> cp < 0x80" "cp < 0x800"
    | (three) "\<not> cp < 0x80" "\<not> cp < 0x800" "cp < 0x10000"
    | (four) "\<not> cp < 0x80" "\<not> cp < 0x800" "\<not> cp < 0x10000" "cp < 0x110000"
    using valid(1) by blast
  then show ?thesis
  proof cases
    case one
    then have e: "encode_codepoint cp = [ucast (cp AND 0x7F)]"
      by (simp add: encode_codepoint_eq)
    show ?thesis
      unfolding e by (simp add: decode_codepoint_def pack_lead1 unpack1_pack1 [OF one])
  next
    case two
    then have e: "encode_codepoint cp =
        [ucast (0xC0 OR (drop_bit 6 cp AND 0x1F)), ucast (0x80 OR (cp AND 0x3F))]"
      by (simp add: encode_codepoint_eq)
    show ?thesis
      unfolding e
      by (simp add: decode_codepoint_def pack_lead2 lead2_excl [OF pack_lead2] unpack2_pack2 [OF two(2)])
  next
    case three
    then have e: "encode_codepoint cp =
        [ucast (0xE0 OR (drop_bit 12 cp AND 0xF)), ucast (0x80 OR (drop_bit 6 cp AND 0x3F)),
         ucast (0x80 OR (cp AND 0x3F))]"
      using valid(2) unfolding encode_codepoint_eq word_less_nat_alt word_le_nat_alt by simp
    show ?thesis
      unfolding e
      by (simp add: decode_codepoint_def pack_lead3 lead3_excl [OF pack_lead3] unpack3_pack3 [OF three(3)])
  next
    case four
    then have e: "encode_codepoint cp =
        [ucast (0xF0 OR (drop_bit 18 cp AND 0x7)), ucast (0x80 OR (drop_bit 12 cp AND 0x3F)),
         ucast (0x80 OR (drop_bit 6 cp AND 0x3F)), ucast (0x80 OR (cp AND 0x3F))]"
      using valid(2) unfolding encode_codepoint_eq word_less_nat_alt word_le_nat_alt by simp
    show ?thesis
      unfolding e
      by (simp add: decode_codepoint_def pack_lead4 lead4_excl [OF pack_lead4] unpack4_pack4 [OF four(4)])
  qed
qed

subsection \<open>The bytes as numbers\<close>

lemma unat_and_0x3F: "unat (x AND 0x3F :: char32) = unat x mod 64"
proof -
  have "(0x3F :: char32) = mask 6" by (simp add: mask_eq_exp_minus_1)
  then have "x AND 0x3F = take_bit 6 x" by (simp only: take_bit_eq_mask)
  then show ?thesis by (simp add: take_bit_eq_mod unat_mod)
qed

lemma unat_and_0x1F: "unat (x AND 0x1F :: char32) = unat x mod 32"
proof -
  have "(0x1F :: char32) = mask 5" by (simp add: mask_eq_exp_minus_1)
  then have "x AND 0x1F = take_bit 5 x" by (simp only: take_bit_eq_mask)
  then show ?thesis by (simp add: take_bit_eq_mod unat_mod)
qed

lemma unat_and_0x0F: "unat (x AND 0xF :: char32) = unat x mod 16"
proof -
  have "(0xF :: char32) = mask 4" by (simp add: mask_eq_exp_minus_1)
  then have "x AND 0xF = take_bit 4 x" by (simp only: take_bit_eq_mask)
  then show ?thesis by (simp add: take_bit_eq_mod unat_mod)
qed

lemma unat_and_0x07: "unat (x AND 0x7 :: char32) = unat x mod 8"
proof -
  have "(0x7 :: char32) = mask 3" by (simp add: mask_eq_exp_minus_1)
  then have "x AND 0x7 = take_bit 3 x" by (simp only: take_bit_eq_mask)
  then show ?thesis by (simp add: take_bit_eq_mod unat_mod)
qed

lemma unat_and_0x7F: "unat (x AND 0x7F :: char32) = unat x mod 128"
proof -
  have "(0x7F :: char32) = mask 7" by (simp add: mask_eq_exp_minus_1)
  then have "x AND 0x7F = take_bit 7 x" by (simp only: take_bit_eq_mask)
  then show ?thesis by (simp add: take_bit_eq_mod unat_mod)
qed

lemma pack_lead1_value: "unat (ucast (x AND 0x7F :: char32) :: byte) = unat x mod 128"
  by (simp add: unsigned_ucast_eq take_bit_eq_mod unat_and_0x7F)

lemma pack_cont_value:
  "unat (ucast (0x80 OR (x AND 0x3F) :: char32) :: byte) = 128 + unat x mod 64"
proof -
  have "(0x80 :: char32) AND (x AND 0x3F) = 0"
    by (rule bit_word_eqI) (simp add: bit_simps utf8_bits)
  then have "(0x80 :: char32) + (x AND 0x3F) = 0x80 OR (x AND 0x3F)"
    by (rule disjunctive_add_eq_or)
  moreover have "unat ((0x80 :: char32) + (x AND 0x3F)) = 128 + unat x mod 64"
    by (simp add: unat_word_ariths unat_and_0x3F)
  ultimately have "unat (0x80 OR (x AND 0x3F) :: char32) = 128 + unat x mod 64" by simp
  then show ?thesis by (simp add: unsigned_ucast_eq take_bit_eq_mod)
qed

lemma pack_lead2_value:
  "unat (ucast (0xC0 OR (x AND 0x1F) :: char32) :: byte) = 192 + unat x mod 32"
proof -
  have "(0xC0 :: char32) AND (x AND 0x1F) = 0"
    by (rule bit_word_eqI) (simp add: bit_simps utf8_bits)
  then have "(0xC0 :: char32) + (x AND 0x1F) = 0xC0 OR (x AND 0x1F)"
    by (rule disjunctive_add_eq_or)
  moreover have "unat ((0xC0 :: char32) + (x AND 0x1F)) = 192 + unat x mod 32"
    by (simp add: unat_word_ariths unat_and_0x1F)
  ultimately have "unat (0xC0 OR (x AND 0x1F) :: char32) = 192 + unat x mod 32" by simp
  then show ?thesis by (simp add: unsigned_ucast_eq take_bit_eq_mod)
qed

lemma pack_lead3_value:
  "unat (ucast (0xE0 OR (x AND 0xF) :: char32) :: byte) = 224 + unat x mod 16"
proof -
  have "(0xE0 :: char32) AND (x AND 0xF) = 0"
    by (rule bit_word_eqI) (simp add: bit_simps utf8_bits)
  then have "(0xE0 :: char32) + (x AND 0xF) = 0xE0 OR (x AND 0xF)"
    by (rule disjunctive_add_eq_or)
  moreover have "unat ((0xE0 :: char32) + (x AND 0xF)) = 224 + unat x mod 16"
    by (simp add: unat_word_ariths unat_and_0x0F)
  ultimately have "unat (0xE0 OR (x AND 0xF) :: char32) = 224 + unat x mod 16" by simp
  then show ?thesis by (simp add: unsigned_ucast_eq take_bit_eq_mod)
qed

lemma pack_lead4_value:
  "unat (ucast (0xF0 OR (x AND 0x7) :: char32) :: byte) = 240 + unat x mod 8"
proof -
  have "(0xF0 :: char32) AND (x AND 0x7) = 0"
    by (rule bit_word_eqI) (simp add: bit_simps utf8_bits)
  then have "(0xF0 :: char32) + (x AND 0x7) = 0xF0 OR (x AND 0x7)"
    by (rule disjunctive_add_eq_or)
  moreover have "unat ((0xF0 :: char32) + (x AND 0x7)) = 240 + unat x mod 8"
    by (simp add: unat_word_ariths unat_and_0x07)
  ultimately have "unat (0xF0 OR (x AND 0x7) :: char32) = 240 + unat x mod 8" by simp
  then show ?thesis by (simp add: unsigned_ucast_eq take_bit_eq_mod)
qed

lemma unat_drop_bit_div: "unat (drop_bit k x :: char32) = unat x div 2 ^ k"
  unfolding unat_drop_bit_eq by (rule drop_bit_eq_div)

lemmas pack_values = pack_lead1_value pack_lead2_value pack_lead3_value pack_lead4_value
  pack_cont_value unat_drop_bit_div

lemma div_mod_small:
  fixes n :: nat
  shows "n < 2048 \<Longrightarrow> n div 64 mod 32 = n div 64"
    and "n < 65536 \<Longrightarrow> n div 4096 mod 16 = n div 4096"
    and "n < 1114112 \<Longrightarrow> n div 262144 mod 8 = n div 262144"
proof -
  show "n div 64 mod 32 = n div 64" if "n < 2048"
    by (rule mod_less, rule less_mult_imp_div_less) (use that in simp)
  show "n div 4096 mod 16 = n div 4096" if "n < 65536"
    by (rule mod_less, rule less_mult_imp_div_less) (use that in simp)
  show "n div 262144 mod 8 = n div 262144" if "n < 1114112"
    by (rule mod_less, rule less_mult_imp_div_less) (use that in simp)
qed

section \<open>Claims about the codec\<close>

text \<open>
  Claim C7. \<open>codepoint_length\<close> returns 1 when the first byte \<open>b\<close> has \<open>b AND 0x80 = 0\<close>, 2 when
  \<open>b AND 0xE0 = 0xC0\<close> and at least two bytes are available, 3 when \<open>b AND 0xF0 = 0xE0\<close> and at
  least three are, 4 when \<open>b AND 0xF8 = 0xF0\<close> and at least four are, and 0 in every other
  case, the empty buffer included. The four patterns exclude each other, so each line
  holds on its own, whatever the order of the tests.
\<close>

theorem codepoint_length_classification:
  "(l \<noteq> 0 \<and> s8 ! 0 AND 0x80 = 0 \<longrightarrow> codepoint_length s8 l = 1) \<and>
   (s8 ! 0 AND 0xE0 = 0xC0 \<and> 2 \<le> l \<longrightarrow> codepoint_length s8 l = 2) \<and>
   (s8 ! 0 AND 0xF0 = 0xE0 \<and> 3 \<le> l \<longrightarrow> codepoint_length s8 l = 3) \<and>
   (s8 ! 0 AND 0xF8 = 0xF0 \<and> 4 \<le> l \<longrightarrow> codepoint_length s8 l = 4) \<and>
   (\<not> (l \<noteq> 0 \<and> s8 ! 0 AND 0x80 = 0) \<and> \<not> (s8 ! 0 AND 0xE0 = 0xC0 \<and> 2 \<le> l) \<and>
    \<not> (s8 ! 0 AND 0xF0 = 0xE0 \<and> 3 \<le> l) \<and> \<not> (s8 ! 0 AND 0xF8 = 0xF0 \<and> 4 \<le> l)
      \<longrightarrow> codepoint_length s8 l = 0) \<and>
   codepoint_length s8 0 = 0"
proof (intro conjI impI)
  show "codepoint_length s8 0 = 0" by (simp add: codepoint_length_def)
next
  assume "l \<noteq> 0 \<and> s8 ! 0 AND 0x80 = 0"
  then show "codepoint_length s8 l = 1" by (simp add: codepoint_length_def)
next
  assume h: "s8 ! 0 AND 0xE0 = 0xC0 \<and> 2 \<le> l"
  then have "l \<noteq> 0" by linarith
  with h lead2_excl [of "s8 ! 0"] show "codepoint_length s8 l = 2"
    by (simp add: codepoint_length_def)
next
  assume h: "s8 ! 0 AND 0xF0 = 0xE0 \<and> 3 \<le> l"
  then have "l \<noteq> 0" by linarith
  with h lead3_excl [of "s8 ! 0"] show "codepoint_length s8 l = 3"
    by (simp add: codepoint_length_def)
next
  assume h: "s8 ! 0 AND 0xF8 = 0xF0 \<and> 4 \<le> l"
  then have "l \<noteq> 0" by linarith
  with h lead4_excl [of "s8 ! 0"] show "codepoint_length s8 l = 4"
    by (simp add: codepoint_length_def)
next
  assume "\<not> (l \<noteq> 0 \<and> s8 ! 0 AND 0x80 = 0) \<and> \<not> (s8 ! 0 AND 0xE0 = 0xC0 \<and> 2 \<le> l) \<and>
    \<not> (s8 ! 0 AND 0xF0 = 0xE0 \<and> 3 \<le> l) \<and> \<not> (s8 ! 0 AND 0xF8 = 0xF0 \<and> 4 \<le> l)"
  then show "codepoint_length s8 l = 0"
    by (auto simp add: codepoint_length_def Let_def)
qed

theorem codepoint_length_classification_witness:
  "codepoint_length [0x41] 1 = 1 \<and>
   codepoint_length [0xC3, 0xA9] 2 = 2 \<and>
   codepoint_length [0xE4, 0xB8, 0xAD] 3 = 3 \<and>
   codepoint_length [0xF0, 0x9F, 0x98, 0x80] 4 = 4 \<and>
   codepoint_length [0xE4, 0xB8] 2 = 0 \<and>
   codepoint_length [0x80] 1 = 0 \<and>
   codepoint_length [] 0 = 0"
  using codepoint_length_classification [of 1 "[0x41]"]
    codepoint_length_classification [of 2 "[0xC3, 0xA9]"]
    codepoint_length_classification [of 3 "[0xE4, 0xB8, 0xAD]"]
    codepoint_length_classification [of 4 "[0xF0, 0x9F, 0x98, 0x80]"]
    codepoint_length_classification [of 2 "[0xE4, 0xB8]"]
    codepoint_length_classification [of 1 "[0x80]"]
    codepoint_length_classification [of 0 "[]"]
  by simp

text \<open>
  Claim C4. \<open>encode_codepoint\<close> maps a scalar value to its UTF-8 bytes: one byte below 0x80,
  two below 0x800, three below 0xD800, nothing on the surrogates 0xD800 to 0xDFFF, three
  below 0x10000, four below 0x110000 and nothing from 0x110000 on. The lead bytes have the
  patterns 0xxxxxxx, 110xxxxx, 1110xxxx and 11110xxx and every continuation byte the
  pattern 10xxxxxx; the free bits of the bytes hold the value, six bits for each
  continuation byte from the low end and the rest in the lead byte.
\<close>

theorem encode_codepoint_boundaries:
  "(cp < 0x80 \<longrightarrow>
      (\<exists>b0. encode_codepoint cp = [b0] \<and> b0 AND 0x80 = 0 \<and> unat b0 = unat cp)) \<and>
   (0x80 \<le> cp \<and> cp < 0x800 \<longrightarrow>
      (\<exists>b0 b1. encode_codepoint cp = [b0, b1] \<and> b0 AND 0xE0 = 0xC0 \<and> b1 AND 0xC0 = 0x80 \<and>
         unat b0 = 0xC0 + unat cp div 64 \<and> unat b1 = 0x80 + unat cp mod 64)) \<and>
   (0x800 \<le> cp \<and> cp < 0xD800 \<longrightarrow>
      (\<exists>b0 b1 b2. encode_codepoint cp = [b0, b1, b2] \<and> b0 AND 0xF0 = 0xE0 \<and>
         b1 AND 0xC0 = 0x80 \<and> b2 AND 0xC0 = 0x80 \<and>
         unat b0 = 0xE0 + unat cp div 4096 \<and> unat b1 = 0x80 + unat cp div 64 mod 64 \<and>
         unat b2 = 0x80 + unat cp mod 64)) \<and>
   (0xD800 \<le> cp \<and> cp < 0xE000 \<longrightarrow> encode_codepoint cp = []) \<and>
   (0xE000 \<le> cp \<and> cp < 0x10000 \<longrightarrow>
      (\<exists>b0 b1 b2. encode_codepoint cp = [b0, b1, b2] \<and> b0 AND 0xF0 = 0xE0 \<and>
         b1 AND 0xC0 = 0x80 \<and> b2 AND 0xC0 = 0x80 \<and>
         unat b0 = 0xE0 + unat cp div 4096 \<and> unat b1 = 0x80 + unat cp div 64 mod 64 \<and>
         unat b2 = 0x80 + unat cp mod 64)) \<and>
   (0x10000 \<le> cp \<and> cp < 0x110000 \<longrightarrow>
      (\<exists>b0 b1 b2 b3. encode_codepoint cp = [b0, b1, b2, b3] \<and> b0 AND 0xF8 = 0xF0 \<and>
         b1 AND 0xC0 = 0x80 \<and> b2 AND 0xC0 = 0x80 \<and> b3 AND 0xC0 = 0x80 \<and>
         unat b0 = 0xF0 + unat cp div 262144 \<and> unat b1 = 0x80 + unat cp div 4096 mod 64 \<and>
         unat b2 = 0x80 + unat cp div 64 mod 64 \<and> unat b3 = 0x80 + unat cp mod 64)) \<and>
   (0x110000 \<le> cp \<longrightarrow> encode_codepoint cp = [])"
  unfolding encode_codepoint_eq word_less_nat_alt word_le_nat_alt
  by (simp add: pack_lead1 pack_lead2 pack_lead3 pack_lead4 pack_cont pack_values div_mod_small)

text \<open>The boundary table of the specification, byte by byte.\<close>

lemma encode_codepoint_boundary_table:
  "encode_codepoint 0x7F = [0x7F]"
  "encode_codepoint 0x80 = [0xC2, 0x80]"
  "encode_codepoint 0x7FF = [0xDF, 0xBF]"
  "encode_codepoint 0x800 = [0xE0, 0xA0, 0x80]"
  "encode_codepoint 0xD7FF = [0xED, 0x9F, 0xBF]"
  "encode_codepoint 0xD800 = []"
  "encode_codepoint 0xDFFF = []"
  "encode_codepoint 0xE000 = [0xEE, 0x80, 0x80]"
  "encode_codepoint 0xFFFF = [0xEF, 0xBF, 0xBF]"
  "encode_codepoint 0x10000 = [0xF0, 0x90, 0x80, 0x80]"
  "encode_codepoint 0x10FFFF = [0xF4, 0x8F, 0xBF, 0xBF]"
  "encode_codepoint 0x110000 = []"
  by (simp_all add: encode_codepoint_eq)

theorem encode_codepoint_boundaries_witness:
  "encode_codepoint 0x7F = [0x7F] \<and> encode_codepoint 0x80 = [0xC2, 0x80] \<and>
   encode_codepoint 0x7FF = [0xDF, 0xBF] \<and> encode_codepoint 0x800 = [0xE0, 0xA0, 0x80] \<and>
   encode_codepoint 0xD7FF = [0xED, 0x9F, 0xBF] \<and> encode_codepoint 0xD800 = [] \<and>
   encode_codepoint 0xDFFF = [] \<and> encode_codepoint 0xE000 = [0xEE, 0x80, 0x80] \<and>
   encode_codepoint 0xFFFF = [0xEF, 0xBF, 0xBF] \<and>
   encode_codepoint 0x10000 = [0xF0, 0x90, 0x80, 0x80] \<and>
   encode_codepoint 0x10FFFF = [0xF4, 0x8F, 0xBF, 0xBF] \<and> encode_codepoint 0x110000 = [] \<and>
   encode_codepoint 0xE9 = [0xC3, 0xA9]"
proof -
  have e9: "\<exists>b0 b1. encode_codepoint 0xE9 = [b0, b1] \<and> b0 AND 0xE0 = 0xC0 \<and>
      b1 AND 0xC0 = 0x80 \<and> unat b0 = 0xC0 + unat (0xE9 :: char32) div 64 \<and>
      unat b1 = 0x80 + unat (0xE9 :: char32) mod 64"
    using encode_codepoint_boundaries [of "0xE9"] by simp
  then obtain b0 b1 :: byte where b: "encode_codepoint 0xE9 = [b0, b1]"
    "unat b0 = 195" "unat b1 = 169" by auto
  have "b0 = 0xC3" "b1 = 0xA9"
    using b(2,3) by (simp_all add: word_unat_eq_iff)
  with b(1) have "encode_codepoint 0xE9 = [0xC3, 0xA9]" by simp
  with encode_codepoint_boundary_table show ?thesis by simp
qed

text \<open>
  Claim C3. For every scalar value up to 0x10FFFF that is not a surrogate, decoding the
  bytes of its encoding succeeds and returns the value together with the number of bytes
  of the boundary table: 1 below 0x80, 2 below 0x800, 3 below 0x10000, 4 otherwise; this
  is also the length of the encoding.
\<close>

theorem decode_encode_roundtrip:
  assumes "cp \<le> 0x10FFFF" and "\<not> (0xD800 \<le> cp \<and> cp \<le> 0xDFFF)"
  shows "decode_codepoint (encode_codepoint cp) (length (encode_codepoint cp)) =
           Some (if cp < 0x80 then 1 else if cp < 0x800 then 2
                 else if cp < 0x10000 then 3 else 4, cp) \<and>
         length (encode_codepoint cp) =
           (if cp < 0x80 then 1 else if cp < 0x800 then 2 else if cp < 0x10000 then 3 else 4)"
proof -
  have len: "length (encode_codepoint cp) =
      (if cp < 0x80 then 1 else if cp < 0x800 then 2 else if cp < 0x10000 then 3 else 4)"
    using assms unfolding encode_codepoint_eq word_less_nat_alt word_le_nat_alt
    by simp arith
  then have "encode_codepoint cp \<noteq> []" by (auto split: if_splits)
  from decode_encode_codepoint [OF this] len show ?thesis by simp
qed

theorem decode_encode_roundtrip_witness:
  "(0x20AC :: char32) \<le> 0x10FFFF \<and> encode_codepoint 0x20AC = [0xE2, 0x82, 0xAC] \<and>
   decode_codepoint (encode_codepoint 0x20AC) (length (encode_codepoint 0x20AC)) =
     Some (3, 0x20AC)"
  using decode_encode_roundtrip [of "0x20AC"] by (simp add: encode_codepoint_eq)

text \<open>
  Claim C9. \<open>decode_codepoint\<close> does not check the range of the value it unpacks: the bytes
  ED A0 80 decode (with three or more bytes available) to the surrogate 0xD800, and four
  bytes led by F5, F6 or F7 decode to values from 0x110000 on. No scalar value is encoded
  to any of these byte sequences.
\<close>

theorem decode_codepoint_no_range_check:
  "decode_codepoint [0xED, 0xA0, 0x80] (3 + k) = Some (3, 0xD800) \<and>
   (0xD800 :: char32) \<le> 0xD800 \<and> (0xD800 :: char32) \<le> 0xDFFF \<and>
   (\<forall>cp. encode_codepoint cp \<noteq> [0xED, 0xA0, 0x80]) \<and>
   decode_codepoint [0xF5, 0x80, 0x80, 0x80] 4 = Some (4, 0x140000) \<and>
   decode_codepoint [0xF6, 0x80, 0x80, 0x80] 4 = Some (4, 0x180000) \<and>
   decode_codepoint [0xF7, 0x80, 0x80, 0x80] 4 = Some (4, 0x1C0000) \<and>
   (0x110000 :: char32) \<le> 0x140000 \<and>
   (\<forall>cp. encode_codepoint cp \<noteq> [0xF5, 0x80, 0x80, 0x80]) \<and>
   (\<forall>cp. encode_codepoint cp \<noteq> [0xF6, 0x80, 0x80, 0x80]) \<and>
   (\<forall>cp. encode_codepoint cp \<noteq> [0xF7, 0x80, 0x80, 0x80])"
proof -
  have d3: "decode_codepoint [0xED, 0xA0, 0x80] (3 + k) = Some (3, 0xD800)"
    by (simp add: decode_codepoint_def)
  have d4: "decode_codepoint [0xF5, 0x80, 0x80, 0x80] 4 = Some (4, 0x140000)"
    "decode_codepoint [0xF6, 0x80, 0x80, 0x80] 4 = Some (4, 0x180000)"
    "decode_codepoint [0xF7, 0x80, 0x80, 0x80] 4 = Some (4, 0x1C0000)"
    by (simp_all add: decode_codepoint_def)
  have never: "encode_codepoint cp \<noteq> bs"
    if "decode_codepoint bs (length bs) = Some (length bs, v)" "encode_codepoint v = []" "bs \<noteq> []"
    for cp v bs
  proof
    assume e: "encode_codepoint cp = bs"
    with that(3) have "encode_codepoint cp \<noteq> []" by simp
    from decode_encode_codepoint [OF this] that(1) have "cp = v" by (simp add: e)
    with e that(2,3) show False by simp
  qed
  have n3: "encode_codepoint cp \<noteq> [0xED, 0xA0, 0x80]" for cp
    by (rule never [where v = "0xD800"]) (simp_all add: decode_codepoint_def encode_codepoint_eq)
  have n4: "encode_codepoint cp \<noteq> [0xF5, 0x80, 0x80, 0x80]" for cp
    by (rule never [where v = "0x140000"]) (simp_all add: decode_codepoint_def encode_codepoint_eq)
  have n5: "encode_codepoint cp \<noteq> [0xF6, 0x80, 0x80, 0x80]" for cp
    by (rule never [where v = "0x180000"]) (simp_all add: decode_codepoint_def encode_codepoint_eq)
  have n6: "encode_codepoint cp \<noteq> [0xF7, 0x80, 0x80, 0x80]" for cp
    by (rule never [where v = "0x1C0000"]) (simp_all add: decode_codepoint_def encode_codepoint_eq)
  show ?thesis using d3 d4 n3 n4 n5 n6 by simp
qed

section \<open>Counting code points\<close>

text \<open>
  A call of the loop that returns was never at a position where \<open>codepoint_length\<close> is 0:
  there the increment adds 0 to \<open>i\<close>, and the next iteration is at the same position.
\<close>

lemma codepoint_count_loop_returns_only_if:
  assumes "codepoint_count_loop s8 l i count = Some y"
  shows "\<not> (i < l \<and> codepoint_length (drop i s8) (l - i) = 0)"
proof (rule codepoint_count_loop.raw_induct
    [where P = "\<lambda>s8 l i count y. \<not> (i < l \<and> codepoint_length (drop i s8) (l - i) = 0)",
      OF _ assms])
  fix loop :: "byte list \<Rightarrow> nat \<Rightarrow> nat \<Rightarrow> nat \<Rightarrow> nat option"
    and s8 :: "byte list" and l i count y :: nat
  assume IH: "\<And>s8 l i count y. loop s8 l i count = Some y \<Longrightarrow>
      \<not> (i < l \<and> codepoint_length (drop i s8) (l - i) = 0)"
    and step: "(if i < l
      then loop s8 l (i + codepoint_length (drop i s8) (l - i)) (count + 1)
      else Some count) = Some y"
  show "\<not> (i < l \<and> codepoint_length (drop i s8) (l - i) = 0)"
  proof
    assume stuck: "i < l \<and> codepoint_length (drop i s8) (l - i) = 0"
    with step have "loop s8 l i (count + 1) = Some y" by simp
    from IH [OF this] stuck show False by blast
  qed
qed

lemma codepoint_count_loop_stuck:
  assumes "i < l" and "codepoint_length (drop i s8) (l - i) = 0"
  shows "codepoint_count_loop s8 l i count = None"
proof (cases "codepoint_count_loop s8 l i count")
  case None
  then show ?thesis .
next
  case (Some y)
  from codepoint_count_loop_returns_only_if [OF this] assms show ?thesis by simp
qed

text \<open>
  Claim C2 says that \<open>codepoint_count\<close> returns for every buffer, because the scan moves on by
  at least one byte where \<open>codepoint_length\<close> is 0. The loop of the source adds
  \<open>codepoint_length\<close> itself to the index, without a minimum of 1. On the one-byte buffer
  0x80 (a continuation byte in lead position) \<open>codepoint_length\<close> is 0 and the call does
  not return.
\<close>

theorem codepoint_count_invalid_lead_diverges:
  "codepoint_length [0x80] 1 = 0 \<and> codepoint_count [0x80] 1 = None"
proof -
  have z: "codepoint_length (drop 0 [0x80]) (1 - 0) = 0" by (simp add: codepoint_length_def)
  have "codepoint_count_loop [0x80] 1 0 0 = None"
    by (rule codepoint_count_loop_stuck [OF _ z]) simp
  with z show ?thesis by (simp add: codepoint_count_def)
qed

text \<open>
  Where \<open>codepoint_length\<close> is nonzero at every position of the buffer the loop returns,
  after at most \<open>l - i\<close> iterations.
\<close>

lemma codepoint_count_loop_wellformed:
  assumes "\<And>j. j < l \<Longrightarrow> codepoint_length (drop j s8) (l - j) \<noteq> 0"
  shows "\<exists>c. codepoint_count_loop s8 l i count = Some c \<and> count \<le> c \<and> c \<le> count + (l - i)"
proof (induction "l - i" arbitrary: i count rule: less_induct)
  case less
  show ?case
  proof (cases "i < l")
    case False
    then show ?thesis by (subst codepoint_count_loop.simps) simp
  next
    case True
    define k where "k = codepoint_length (drop i s8) (l - i)"
    have "k \<noteq> 0" unfolding k_def by (rule assms [OF True])
    then have "l - (i + k) < l - i" using True by linarith
    from less [OF this, of "count + 1"] obtain c where
      c: "codepoint_count_loop s8 l (i + k) (count + 1) = Some c" "count + 1 \<le> c"
         "c \<le> count + 1 + (l - (i + k))" by blast
    have "codepoint_count_loop s8 l i count = Some c"
      by (subst codepoint_count_loop.simps) (simp only: True if_True c(1) flip: k_def)
    moreover have "c \<le> count + (l - i)" using c(3) \<open>k \<noteq> 0\<close> True by linarith
    ultimately show ?thesis using c(2) by simp
  qed
qed

lemma codepoint_count_example:
  "codepoint_count [0x61, 0xC3, 0xA9, 0xE4, 0xB8, 0xAD] 6 = Some 3"
  unfolding codepoint_count_def
  by (subst codepoint_count_loop.simps, simp add: codepoint_length_def)+

section \<open>Facts about the trie\<close>

text \<open>The dictionary depends only on the set of pairs the constructor has seen.\<close>

lemma dic_of_empty: "dic_of {} = Map.empty"
  by (rule ext) (simp add: dic_of_def)

lemma trie_insert_dic_of:
  "trie_insert item len (dic_of E) = dic_of (insert (take len item, len = length item) E)"
proof (rule ext)
  fix k
  show "trie_insert item len (dic_of E) k =
        dic_of (insert (take len item, len = length item) E) k"
  proof (cases "k = take len item")
    case False
    then show ?thesis
      by (auto simp: trie_insert_def dic_of_def Let_def split: option.splits)
  next
    case True
    then show ?thesis
      by (cases "len = length item") (auto simp: trie_insert_def dic_of_def Let_def)
  qed
qed

lemma item_events_step:
  assumes "len \<le> length item"
  shows "item_events item len =
         insert (take len item, len = length item) (item_events item (len + 1))"
proof -
  have "{j. len \<le> j \<and> j \<le> length item} = insert len {j. len + 1 \<le> j \<and> j \<le> length item}"
    using assms by auto
  then have "item_events item len =
      (\<lambda>j. (take j item, j = length item)) ` insert len {j. len + 1 \<le> j \<and> j \<le> length item}"
    unfolding item_events_def by (simp add: image_Collect [symmetric] del: image_insert)
  then show ?thesis
    unfolding item_events_def [of item "len + 1"] by (simp add: image_Collect)
qed

lemma item_events_done:
  assumes "\<not> len \<le> length item"
  shows "item_events item len = {}"
  using assms by (auto simp: item_events_def)

lemma trie_item_loop_dic_of:
  "trie_item_loop item len (dic_of E) = dic_of (E \<union> item_events item len)"
proof (induction item len "dic_of E" arbitrary: E rule: trie_item_loop.induct)
  case (1 item len)
  show ?case
  proof (cases "len \<le> length item")
    case True
    have "trie_item_loop item len (dic_of E) =
          trie_item_loop item (len + 1) (dic_of (insert (take len item, len = length item) E))"
      by (subst trie_item_loop.simps) (simp add: True trie_insert_dic_of)
    also have "\<dots> = dic_of (insert (take len item, len = length item) E \<union>
                              item_events item (len + 1))"
      by (rule 1) (simp_all add: True trie_insert_dic_of)
    finally show ?thesis by (simp add: item_events_step [OF True])
  next
    case False
    then show ?thesis
      by (subst trie_item_loop.simps) (simp add: item_events_done)
  qed
qed

lemma trie_items_loop_dic_of:
  "trie_items_loop items (dic_of E) = dic_of (E \<union> events items)"
  by (induction items arbitrary: E) (simp_all add: events_def trie_item_loop_dic_of Un_assoc)

lemma Trie_dic_of: "Trie items = dic_of (events items)"
  unfolding Trie_def dic_of_empty [symmetric] trie_items_loop_dic_of by simp

lemma events_True: "(k, True) \<in> events items \<longleftrightarrow> k \<noteq> [] \<and> k \<in> set items"
  by (auto simp: events_def item_events_def Suc_le_eq)

lemma events_False:
  "(k, False) \<in> events items \<longleftrightarrow> k \<noteq> [] \<and> (\<exists>p \<in> set items. strict_prefix k p)"
proof
  assume "(k, False) \<in> events items"
  then obtain p j where p: "p \<in> set items" "k = take j p" "1 \<le> j" "j < length p"
    by (auto simp: events_def item_events_def)
  then have "prefix k p" "k \<noteq> p" "k \<noteq> []" by (auto simp: take_is_prefix)
  with p(1) show "k \<noteq> [] \<and> (\<exists>p \<in> set items. strict_prefix k p)"
    by (auto simp: strict_prefix_def)
next
  assume "k \<noteq> [] \<and> (\<exists>p \<in> set items. strict_prefix k p)"
  then obtain p where p: "k \<noteq> []" "p \<in> set items" "prefix k p" "k \<noteq> p"
    by (auto simp: strict_prefix_def)
  then obtain zs where zs: "p = k @ zs" "zs \<noteq> []" by (auto simp: prefix_def)
  then have k: "take (length k) p = k" "1 \<le> length k" "length k \<le> length p"
      "length k \<noteq> length p"
    using p(1) by (auto simp: Suc_le_eq)
  have "(take (length k) p, length k = length p) \<in> item_events p 1"
    unfolding item_events_def using k(2,3) by blast
  then have "(k, False) \<in> item_events p 1" using k(1,4) by simp
  with p(2) show "(k, False) \<in> events items" by (auto simp: events_def)
qed

text \<open>What the finished dictionary holds at a key.\<close>

lemma Trie_lookup:
  "Trie items k =
     (if k \<noteq> [] \<and> (\<exists>p \<in> set items. prefix k p)
      then Some \<lparr>done' = (\<forall>p \<in> set items. \<not> strict_prefix k p), match = (k \<in> set items)\<rparr>
      else None)"
proof -
  have "(\<exists>b. (k, b) \<in> events items) \<longleftrightarrow> k \<noteq> [] \<and> (\<exists>p \<in> set items. prefix k p)"
    by (metis (full_types) events_True events_False prefix_order.order_refl strict_prefix_def
        prefix_order.less_imp_le)
  then show ?thesis
    by (auto simp: Trie_dic_of dic_of_def events_True events_False)
qed

lemma Trie_cong: "set items = set items' \<Longrightarrow> Trie items = Trie items'"
  by (rule ext) (simp add: Trie_lookup)

subsection \<open>The scan of \<open>Trie_match\<close>\<close>

lemma finite_hits: "finite (hits items text len)"
  by (simp add: hits_def)

lemma hits_beyond: "length text < len \<Longrightarrow> hits items text len = {}"
  by (auto simp: hits_def dest: prefix_length_le)

lemma hits_step:
  assumes "len \<le> length text"
  shows "hits items text len =
    (if take len text \<in> set items then {len} else {}) \<union> hits items text (len + 1)"
proof (rule set_eqI)
  fix n
  have eq: "p = take len text" if "prefix p text" "length p = len" for p
    using that by (auto simp: prefix_def)
  have pre: "prefix (take len text) text" by (rule take_is_prefix)
  have len: "length (take len text) = len" using assms by simp
  show "n \<in> hits items text len \<longleftrightarrow>
        n \<in> (if take len text \<in> set items then {len} else {}) \<union> hits items text (len + 1)"
  proof
    assume "n \<in> hits items text len"
    then obtain p where p: "p \<in> set items" "prefix p text" "len \<le> length p" "n = length p"
      by (auto simp: hits_def)
    show "n \<in> (if take len text \<in> set items then {len} else {}) \<union> hits items text (len + 1)"
    proof (cases "length p = len")
      case True
      with eq [OF p(2)] p(1,4) show ?thesis by simp
    next
      case False
      with p(3) have "len + 1 \<le> length p" by simp
      with p(1,2,4) have "n \<in> hits items text (len + 1)" unfolding hits_def by blast
      then show ?thesis by simp
    qed
  next
    assume "n \<in> (if take len text \<in> set items then {len} else {}) \<union> hits items text (len + 1)"
    then consider "take len text \<in> set items" "n = len" | "n \<in> hits items text (len + 1)"
      by (auto split: if_splits)
    then show "n \<in> hits items text len"
    proof cases
      case 1
      with pre len have "take len text \<in> {p \<in> set items. prefix p text \<and> len \<le> length p}"
        by simp
      then have "length (take len text) \<in> hits items text len"
        unfolding hits_def by (rule imageI)
      with len 1(2) show ?thesis by simp
    next
      case 2
      then obtain p where "p \<in> set items" "prefix p text" "len + 1 \<le> length p" "n = length p"
        by (auto simp: hits_def)
      then show ?thesis unfolding hits_def by auto
    qed
  qed
qed

lemma hits_ge: "n \<in> hits items text len \<Longrightarrow> len \<le> n"
  by (auto simp: hits_def)

lemma hits_extends:
  assumes "n \<in> hits items text len" "len \<le> length text" "0 < len"
  shows "take len text \<noteq> [] \<and> (\<exists>p \<in> set items. prefix (take len text) p)"
proof -
  from assms(1) obtain p where p: "p \<in> set items" "prefix p text" "len \<le> length p"
    by (auto simp: hits_def)
  then have "take len text = take len p" by (auto simp: prefix_def)
  then have "prefix (take len text) p" by (simp add: take_is_prefix)
  moreover have "take len text \<noteq> []" using assms(2,3) by auto
  ultimately show ?thesis using p(1) by blast
qed

lemma hits_strict:
  assumes "n \<in> hits items text (len + 1)" "len \<le> length text"
  shows "\<exists>p \<in> set items. strict_prefix (take len text) p"
proof -
  from assms(1) obtain p where p: "p \<in> set items" "prefix p text" "len + 1 \<le> length p"
    by (auto simp: hits_def)
  then have "take len text = take len p" by (auto simp: prefix_def)
  then have "prefix (take len text) p" by (simp add: take_is_prefix)
  moreover have "take len text \<noteq> p" using p(3) by (metis length_take min.cobounded2 not_less_eq_eq Suc_eq_plus1 le_trans)
  ultimately show ?thesis using p(1) by (auto simp: strict_prefix_def)
qed

lemma match_loop_done: "match_loop dic text text_len match_len True len = match_len"
  by (subst match_loop.simps) simp

lemma match_loop_Trie:
  assumes "0 < len" and "match_len < len"
  shows "match_loop (Trie items) text (length text) match_len False len =
           (if hits items text len = {} then match_len else Max (hits items text len))"
  using assms
proof (induction "Suc (length text) - len" arbitrary: len match_len rule: less_induct)
  case less
  show ?case
  proof (cases "len \<le> length text")
    case False
    then have "hits items text len = {}" by (simp add: hits_beyond)
    with False show ?thesis by (subst match_loop.simps) simp
  next
    case True
    let ?k = "take len text"
    let ?H = "hits items text (len + 1)"
    have step: "hits items text len = (if ?k \<in> set items then {len} else {}) \<union> ?H"
      by (rule hits_step [OF True])
    have above: "len < n" if "n \<in> ?H" for n using hits_ge [OF that] by simp
    show ?thesis
    proof (cases "Trie items ?k")
      case None
      have "hits items text len = {}"
      proof (rule ccontr)
        assume "hits items text len \<noteq> {}"
        then obtain n where "n \<in> hits items text len" by blast
        from hits_extends [OF this True less.prems(1)] None show False
          by (simp add: Trie_lookup)
      qed
      then show ?thesis
        by (subst match_loop.simps) (simp add: True None match_loop_done)
    next
      case (Some info)
      then have info: "match info \<longleftrightarrow> ?k \<in> set items"
        "done' info \<longleftrightarrow> (\<forall>p \<in> set items. \<not> strict_prefix ?k p)"
        by (auto simp: Trie_lookup split: if_splits)
      let ?m = "if ?k \<in> set items then len else match_len"
      have unfold: "match_loop (Trie items) text (length text) match_len False len =
          match_loop (Trie items) text (length text) ?m (done' info) (len + 1)"
        by (subst match_loop.simps) (simp add: True Some info(1))
      show ?thesis
      proof (cases "done' info")
        case True
        have "?H = {}"
        proof (rule ccontr)
          assume "?H \<noteq> {}"
          then obtain n where "n \<in> ?H" by blast
          from hits_strict [OF this \<open>len \<le> length text\<close>] True info(2) show False by blast
        qed
        then show ?thesis
          unfolding unfold step by (simp add: True match_loop_done)
      next
        case False
        have "Suc (length text) - (len + 1) < Suc (length text) - len"
          using True by linarith
        moreover have "0 < len + 1" "?m < len + 1" using less.prems by auto
        ultimately have IH: "match_loop (Trie items) text (length text) ?m False (len + 1) =
            (if ?H = {} then ?m else Max ?H)"
          by (rule less.hyps)
        have unfold': "match_loop (Trie items) text (length text) match_len False len =
            (if ?H = {} then ?m else Max ?H)"
          using unfold False IH by simp
        show ?thesis
        proof (cases "?H = {}")
          case True
          then show ?thesis unfolding unfold' step by simp
        next
          case nonempty: False
          have "Max (insert len ?H) = Max ?H"
          proof -
            obtain n where "n \<in> ?H" using nonempty by blast
            with above have "len \<le> Max ?H"
              by (meson Max_ge finite_hits less_imp_le_nat order_trans)
            then show ?thesis using nonempty by (simp add: finite_hits max_absorb2)
          qed
          then show ?thesis unfolding unfold' step using nonempty by simp
        qed
      qed
    qed
  qed
qed

text \<open>The examples of the specification, run on the model.\<close>

lemma Trie_examples:
  "Trie_match (Trie [''if'', ''in'', ''int'']) ''integer'' 7 = 3"
  "Trie_match (Trie [''if'', ''in'', ''int'']) ''in'' 2 = 2"
  "Trie_match (Trie [''if'', ''in'', ''int'']) ''i'' 1 = 0"
  "Trie_match (Trie [''if'', ''in'', ''int'']) ''xyz'' 3 = 0"
  by (simp_all add: Trie_match_def Trie_def trie_item_loop.simps trie_insert_def
      match_loop.simps)

section \<open>Claims about the trie\<close>

text \<open>
  Claim C1. For every list of patterns \<open>P\<close> and every string \<open>s\<close>, the trie built from \<open>P\<close>
  matches on \<open>s\<close> (with \<open>text_len\<close> the length of \<open>s\<close>) the length of the longest element of
  \<open>P\<close> that is a prefix of \<open>s\<close>, and 0 when no element of \<open>P\<close> is a prefix of \<open>s\<close>.
\<close>

theorem Trie_longest_match:
  "Trie_match (Trie P) s (length s) = Max (insert 0 (length ` {p \<in> set P. prefix p s}))"
proof -
  let ?A = "length ` {p \<in> set P. prefix p s}"
  have split: "?A - {0} = hits P s 1"
    by (auto simp: hits_def image_iff Suc_le_eq)
  have fin: "finite ?A" by simp
  have "Trie_match (Trie P) s (length s) = (if hits P s 1 = {} then 0 else Max (hits P s 1))"
    unfolding Trie_match_def by (rule match_loop_Trie) simp_all
  also have "\<dots> = Max (insert 0 ?A)"
  proof (cases "hits P s 1 = {}")
    case True
    with split have "?A \<subseteq> {0}" by blast
    then have "insert 0 ?A = {0}" by blast
    then have "Max (insert 0 ?A) = 0" by (simp only: Max_singleton)
    with True show ?thesis by simp
  next
    case False
    have "insert 0 ?A = insert 0 (hits P s 1)" using split by blast
    with False show ?thesis by (simp add: finite_hits)
  qed
  finally show ?thesis .
qed

theorem Trie_longest_match_witness:
  "Trie_match (Trie [''if'', ''in'', ''int'']) ''integer'' (length ''integer'') = 3 \<and>
   Max (insert 0 (length ` {p \<in> set [''if'', ''in'', ''int'']. prefix p ''integer''})) = 3"
proof -
  have l: "length ''integer'' = 7" by simp
  have a: "Trie_match (Trie [''if'', ''in'', ''int'']) ''integer'' (length ''integer'') = 3"
    unfolding l by (rule Trie_examples(1))
  have b: "Max (insert 0 (length ` {p \<in> set [''if'', ''in'', ''int'']. prefix p ''integer''})) = 3"
    using Trie_longest_match [of "[''if'', ''in'', ''int'']" "''integer''", symmetric] a
    by (rule trans)
  from a b show ?thesis by (rule conjI)
qed

text \<open>
  Claim C8. Two input vectors with the same set of patterns (a permutation of each other,
  or one repeating patterns of the other) build the same dictionary, so their tries answer
  every query \<open>(text, text_len)\<close> alike.
\<close>

theorem Trie_order_independent:
  assumes "set items = set items'"
  shows "Trie_match (Trie items) text text_len = Trie_match (Trie items') text text_len"
  using Trie_cong [OF assms] by simp

theorem Trie_order_independent_witness:
  "set [''if'', ''in'', ''int''] = set [''int'', ''if'', ''in'', ''if''] \<and>
   Trie_match (Trie [''if'', ''in'', ''int'']) ''integer'' 7 =
   Trie_match (Trie [''int'', ''if'', ''in'', ''if'']) ''integer'' 7"
proof -
  have h: "set [''if'', ''in'', ''int''] = set [''int'', ''if'', ''in'', ''if'']" by auto
  from Trie_order_independent [OF h] h show ?thesis by blast
qed

section \<open>Facts about the escape resolver\<close>

lemma is_hex_None_iff: "is_hex c = None \<longleftrightarrow> \<not> hex_digit c"
  by (simp add: is_hex_def hex_digit_def)

lemma is_digit_None_iff: "is_digit c = None \<longleftrightarrow> \<not> dec_digit c"
  by (simp add: is_digit_def dec_digit_def)

lemma is_digit_value:
  assumes "is_digit c = Some v"
  shows "v = of_nat (unat c - 48)"
proof -
  from assms have c: "0x30 \<le> c" and v: "v = ucast c - 0x30"
    by (auto simp: is_digit_def split: if_splits)
  from c have "48 \<le> unat c" by (simp add: word_le_nat_alt)
  then have "(of_nat (unat c - 48) :: int32) = of_nat (unat c) - 48" by (simp add: of_nat_diff)
  also have "\<dots> = ucast c - 0x30" by simp
  finally show ?thesis using v by simp
qed

lemma is_hex_value:
  assumes "is_hex c = Some v"
  shows "v = of_nat (hex_digit_value c)"
proof -
  have u: "(of_nat (unat c) :: int32) = ucast c" by simp
  consider (d) "0x30 \<le> c" "c \<le> 0x39" "v = ucast c - 0x30"
    | (l) "\<not> c \<le> 0x39" "0x61 \<le> c" "c \<le> 0x66" "v = ucast c - 0x61 + 10"
    | (u) "\<not> c \<le> 0x39" "\<not> 0x61 \<le> c" "0x41 \<le> c" "c \<le> 0x46" "v = ucast c - 0x41 + 10"
    using assms unfolding is_hex_def word_le_nat_alt
    by (auto split: if_splits)
  then show ?thesis
  proof cases
    case d
    then have "48 \<le> unat c" by (simp add: word_le_nat_alt)
    then have "(of_nat (unat c - 48) :: int32) = ucast c - 48" by (simp add: of_nat_diff)
    with d show ?thesis by (simp add: hex_digit_value_def)
  next
    case l
    then have "97 \<le> unat c" by (simp add: word_le_nat_alt)
    then have "87 \<le> unat c" by linarith
    then have "(of_nat (unat c - 87) :: int32) = ucast c - 87" by (simp add: of_nat_diff)
    with l show ?thesis by (simp add: hex_digit_value_def)
  next
    case u
    then have "65 \<le> unat c" by (simp add: word_le_nat_alt)
    then have "55 \<le> unat c" by linarith
    then have "(of_nat (unat c - 55) :: int32) = ucast c - 55" by (simp add: of_nat_diff)
    with u show ?thesis by (simp add: hex_digit_value_def)
  qed
qed

lemma parse_hex_loop_eq:
  assumes "n = length s"
  shows "parse_hex_loop s n i (of_nat v) =
     (of_nat (foldl (\<lambda>v c. v * 16 + hex_digit_value c) v (takeWhile hex_digit (drop i s))),
      i + length (takeWhile hex_digit (drop i s)))"
  using assms
proof (induction "n - i" arbitrary: i v rule: less_induct)
  case less
  show ?case
  proof (cases "i < n")
    case False
    with less.prems show ?thesis by (subst parse_hex_loop.simps) simp
  next
    case True
    with less.prems have d: "drop i s = s ! i # drop (Suc i) s"
      by (simp add: Cons_nth_drop_Suc)
    show ?thesis
    proof (cases "is_hex (s ! i)")
      case None
      then have "\<not> hex_digit (s ! i)" by (simp add: is_hex_None_iff)
      with None show ?thesis
        unfolding d by (subst parse_hex_loop.simps) (simp add: True)
    next
      case (Some val)
      then have h: "hex_digit (s ! i)" using is_hex_None_iff [of "s ! i"] by simp
      have val: "of_nat v * 16 + val = (of_nat (v * 16 + hex_digit_value (s ! i)) :: int32)"
        by (simp add: is_hex_value [OF Some])
      have "n - (i + 1) < n - i" using True by linarith
      from less.hyps [OF this less.prems, of "v * 16 + hex_digit_value (s ! i)"]
      show ?thesis
        unfolding d by (subst parse_hex_loop.simps) (simp add: True Some h val)
    qed
  qed
qed

lemma parse_octal_loop_eq:
  assumes "n = length s"
  shows "parse_octal_loop s n i (of_nat v) =
     (of_nat (foldl (\<lambda>v c. v * 8 + (unat c - 48)) v (takeWhile dec_digit (drop i s))),
      i + length (takeWhile dec_digit (drop i s)))"
  using assms
proof (induction "n - i" arbitrary: i v rule: less_induct)
  case less
  show ?case
  proof (cases "i < n")
    case False
    with less.prems show ?thesis by (subst parse_octal_loop.simps) simp
  next
    case True
    with less.prems have d: "drop i s = s ! i # drop (Suc i) s"
      by (simp add: Cons_nth_drop_Suc)
    show ?thesis
    proof (cases "is_digit (s ! i)")
      case None
      then have "\<not> dec_digit (s ! i)" by (simp add: is_digit_None_iff)
      with None show ?thesis
        unfolding d by (subst parse_octal_loop.simps) (simp add: True)
    next
      case (Some val)
      then have h: "dec_digit (s ! i)" using is_digit_None_iff [of "s ! i"] by simp
      have val: "of_nat v * 8 + val = (of_nat (v * 8 + (unat (s ! i) - 48)) :: int32)"
        by (simp add: is_digit_value [OF Some])
      have "n - (i + 1) < n - i" using True by linarith
      from less.hyps [OF this less.prems, of "v * 8 + (unat (s ! i) - 48)"]
      show ?thesis
        unfolding d by (subst parse_octal_loop.simps) (simp add: True Some h val)
    qed
  qed
qed

lemma parse_hex_number_eq:
  "parse_hex_number s (length s) i =
     (of_nat (radix16 (takeWhile hex_digit (drop i s))),
      i + length (takeWhile hex_digit (drop i s)))"
  using parse_hex_loop_eq [of "length s" s i 0]
  by (simp add: parse_hex_number_def radix16_def)

lemma parse_octal_number_eq:
  "parse_octal_number s (length s) i =
     (of_nat (radix8 (takeWhile dec_digit (drop i s))),
      i + length (takeWhile dec_digit (drop i s)))"
  using parse_octal_loop_eq [of "length s" s i 0]
  by (simp add: parse_octal_number_def radix8_def)

subsection \<open>One iteration of the loop\<close>

lemma resolve_loop_end: "\<not> i < n \<Longrightarrow> resolve_loop s n i r = Inr r"
  by (subst resolve_loop.simps) simp

lemma resolve_loop_plain:
  "i < n \<Longrightarrow> s ! i \<noteq> 0x5C \<Longrightarrow> resolve_loop s n i r = resolve_loop s n (i + 1) (r @ [s ! i])"
  by (subst resolve_loop.simps) simp

lemma resolve_loop_trailing:
  "i < n \<Longrightarrow> s ! i = 0x5C \<Longrightarrow> i + 1 = n \<Longrightarrow> resolve_loop s n i r = Inl MalformedEscape"
  by (subst resolve_loop.simps) simp

lemma resolve_loop_fixed:
  assumes "i + 1 < n" "s ! i = 0x5C" "fixed_escape (s ! (i + 1)) = Some b"
  shows "resolve_loop s n i r = resolve_loop s n (i + 2) (r @ [b])"
  using assms by (subst resolve_loop.simps) (auto simp: fixed_escape_def split: if_splits)

lemma resolve_loop_hex:
  assumes "i + 1 < n" "s ! i = 0x5C" "s ! (i + 1) = 0x78 \<or> s ! (i + 1) = 0x75"
  shows "resolve_loop s n i r =
         resolve_loop s n (snd (parse_hex_number s n (i + 2)))
           (r @ encode_codepoint (fst (parse_hex_number s n (i + 2))))"
  using assms by (subst resolve_loop.simps) auto

lemma resolve_loop_octal:
  assumes "i + 1 < n" "s ! i = 0x5C" "fixed_escape (s ! (i + 1)) = None"
    "s ! (i + 1) \<noteq> 0x78" "s ! (i + 1) \<noteq> 0x75"
  shows "resolve_loop s n i r =
         resolve_loop s n (snd (parse_octal_number s n (i + 1)))
           (r @ encode_codepoint (fst (parse_octal_number s n (i + 1))))"
  using assms by (subst resolve_loop.simps) (auto simp: fixed_escape_def split: if_splits)

subsection \<open>Backslashes at the end of the input\<close>

lemma trailing_backslashes_skip:
  assumes "pre \<noteq> []" and "last pre \<noteq> 0x5C"
  shows "trailing_backslashes (pre @ t) = trailing_backslashes t"
proof -
  from assms(1) have rp: "rev pre = last pre # rev (butlast pre)"
    by (metis append_butlast_last_id rev.simps(2) rev_append rev_rev_ident append_Cons append_Nil)
  show ?thesis
  proof (cases "\<forall>x \<in> set (rev t). x = 0x5C")
    case True
    then have a: "takeWhile (\<lambda>c. c = 0x5C) (rev t @ rev pre) =
               rev t @ takeWhile (\<lambda>c. c = 0x5C) (rev pre)"
      by (intro takeWhile_append2) simp
    have b: "takeWhile (\<lambda>c. c = 0x5C) (rev pre) = []"
      unfolding rp using assms(2) by simp
    have c: "takeWhile (\<lambda>c. c = 0x5C) (rev t) = rev t"
      using True by (simp add: takeWhile_eq_all_conv)
    show ?thesis
      unfolding trailing_backslashes_def rev_append a b c by simp
  next
    case False
    then obtain x where "x \<in> set (rev t)" "x \<noteq> 0x5C" by blast
    then have "takeWhile (\<lambda>c. c = 0x5C) (rev t @ rev pre) = takeWhile (\<lambda>c. c = 0x5C) (rev t)"
      by (intro takeWhile_append1) 
    then show ?thesis by (simp add: trailing_backslashes_def)
  qed
qed

lemma trailing_backslashes_drop:
  assumes "i < i'" and "i' \<le> length s" and "s ! (i' - 1) \<noteq> 0x5C"
  shows "trailing_backslashes (drop i s) = trailing_backslashes (drop i' s)"
proof -
  let ?pre = "take (i' - i) (drop i s)"
  have split: "drop i s = ?pre @ drop i' s"
    using assms(1) by (metis append_take_drop_id drop_drop le_add_diff_inverse2 less_imp_le_nat)
  have len: "length ?pre = i' - i" using assms(1,2) by simp
  then have ne: "?pre \<noteq> []" using assms(1) by (metis length_0_conv zero_less_diff less_numeral_extra(3))
  have "last ?pre = ?pre ! (i' - i - 1)" using ne len by (simp add: last_conv_nth)
  also have "\<dots> = drop i s ! (i' - i - 1)" using assms(1) by simp
  also have "\<dots> = s ! (i + (i' - i - 1))" using assms(1,2) by simp
  also have "i + (i' - i - 1) = i' - 1" using assms(1) by linarith
  finally have "last ?pre \<noteq> 0x5C" using assms(3) by simp
  from trailing_backslashes_skip [OF ne this, of "drop i' s"] split show ?thesis by simp
qed

lemma trailing_backslashes_pair:
  "odd (trailing_backslashes (0x5C # 0x5C # t)) \<longleftrightarrow> odd (trailing_backslashes t)"
proof (cases "\<forall>x \<in> set (rev t). x = 0x5C")
  case True
  then have a: "takeWhile (\<lambda>c. c = 0x5C) (rev t @ [0x5C, 0x5C]) =
             rev t @ takeWhile (\<lambda>c. c = 0x5C) [0x5C, 0x5C]"
    by (intro takeWhile_append2) simp
  have b: "takeWhile (\<lambda>c. c = 0x5C) [0x5C, 0x5C :: byte] = [0x5C, 0x5C]" by simp
  have c: "takeWhile (\<lambda>c. c = 0x5C) (rev t) = rev t"
    using True by (simp add: takeWhile_eq_all_conv)
  have r: "rev (0x5C # 0x5C # t) = rev t @ [0x5C, 0x5C]" by simp
  show ?thesis
    unfolding trailing_backslashes_def r a b c by simp
next
  case False
  then obtain x where "x \<in> set (rev t)" "x \<noteq> 0x5C" by blast
  then have "takeWhile (\<lambda>c. c = 0x5C) (rev t @ [0x5C, 0x5C]) = takeWhile (\<lambda>c. c = 0x5C) (rev t)"
    by (intro takeWhile_append1)
  then show ?thesis by (simp add: trailing_backslashes_def)
qed

lemma digit_run_last:
  assumes "ds = takeWhile P (drop j s)" and "ds \<noteq> []"
  shows "P (s ! (j + length ds - 1))" and "j + length ds \<le> length s"
proof -
  have le: "length ds \<le> length (drop j s)" unfolding assms(1) by (rule length_takeWhile_le)
  with assms(2) show bound: "j + length ds \<le> length s" by (cases "j \<le> length s") auto
  have pos: "0 < length ds" using assms(2) by simp
  then have "last ds \<in> set ds" using assms(2) by simp
  then have "P (last ds)" unfolding assms(1) by (auto dest: set_takeWhileD)
  moreover have "last ds = ds ! (length ds - 1)" using assms(2) by (rule last_conv_nth)
  moreover have "ds ! (length ds - 1) = drop j s ! (length ds - 1)"
    unfolding assms(1) using pos assms(1) by (intro takeWhile_nth) simp
  moreover have "drop j s ! (length ds - 1) = s ! (j + (length ds - 1))"
    using bound pos by simp
  moreover have "j + (length ds - 1) = j + length ds - 1" using pos by linarith
  ultimately show "P (s ! (j + length ds - 1))" by simp
qed

lemma hex_digit_not_backslash: "hex_digit c \<Longrightarrow> c \<noteq> 0x5C"
  by (auto simp: hex_digit_def)

lemma dec_digit_not_backslash: "dec_digit c \<Longrightarrow> c \<noteq> 0x5C"
  by (auto simp: dec_digit_def)

lemma resolve_loop_step:
  assumes "i < length s"
  shows "(i + 1 = length s \<and> s ! i = 0x5C \<and>
            resolve_loop s (length s) i r = Inl MalformedEscape) \<or>
         (\<exists>i' r'. i < i' \<and> i' \<le> length s \<and>
            resolve_loop s (length s) i r = resolve_loop s (length s) i' r' \<and>
            (odd (trailing_backslashes (drop i s)) \<longleftrightarrow>
             odd (trailing_backslashes (drop i' s))))"
    (is "?fail \<or> ?go")
proof (cases "s ! i = 0x5C")
  case False
  have "trailing_backslashes (drop i s) = trailing_backslashes (drop (i + 1) s)"
    by (rule trailing_backslashes_drop) (use assms False in simp_all)
  with resolve_loop_plain [OF assms False, of r] assms have ?go
    by (intro exI [of _ "i + 1"] exI [of _ "r @ [s ! i]"]) simp
  then show ?thesis ..
next
  case bs: True
  show ?thesis
  proof (cases "i + 1 = length s")
    case True
    with resolve_loop_trailing [OF assms bs True, of r] bs show ?thesis by simp
  next
    case False
    with assms have nxt: "i + 1 < length s" by linarith
    let ?c = "s ! (i + 1)"
    have d: "drop i s = 0x5C # ?c # drop (i + 2) s"
      using nxt bs by (metis Cons_nth_drop_Suc Suc_eq_plus1 add_2_eq_Suc' assms)
    consider (fixed) b where "fixed_escape ?c = Some b"
      | (hex) "?c = 0x78 \<or> ?c = 0x75"
      | (octal) "fixed_escape ?c = None" "?c \<noteq> 0x78" "?c \<noteq> 0x75"
      by (cases "fixed_escape ?c") auto
    then have ?go
    proof cases
      case fixed
      have "odd (trailing_backslashes (drop i s)) \<longleftrightarrow>
            odd (trailing_backslashes (drop (i + 2) s))"
      proof (cases "?c = 0x5C")
        case True
        then show ?thesis unfolding d by (simp add: trailing_backslashes_pair)
      next
        case False
        have "trailing_backslashes (drop i s) = trailing_backslashes (drop (i + 2) s)"
          by (rule trailing_backslashes_drop) (use nxt False in simp_all)
        then show ?thesis by simp
      qed
      with resolve_loop_fixed [OF nxt bs fixed, of r] nxt show ?thesis
        by (intro exI [of _ "i + 2"] exI [of _ "r @ [b]"]) simp
    next
      case hex
      define ds where "ds = takeWhile hex_digit (drop (i + 2) s)"
      let ?i' = "i + 2 + length ds"
      have run: "resolve_loop s (length s) i r =
          resolve_loop s (length s) ?i' (r @ encode_codepoint (of_nat (radix16 ds)))"
        using resolve_loop_hex [OF nxt bs hex, of r] by (simp add: parse_hex_number_eq ds_def)
      have "?i' \<le> length s \<and> s ! (?i' - 1) \<noteq> 0x5C"
      proof (cases "ds = []")
        case True
        with nxt hex show ?thesis by auto
      next
        case False
        from digit_run_last [OF ds_def False] show ?thesis
          by (simp add: hex_digit_not_backslash)
      qed
      then have "trailing_backslashes (drop i s) = trailing_backslashes (drop ?i' s)"
        by (intro trailing_backslashes_drop) simp_all
      with run \<open>?i' \<le> length s \<and> s ! (?i' - 1) \<noteq> 0x5C\<close> show ?thesis
        by (intro exI [of _ ?i'] exI [of _ "r @ encode_codepoint (of_nat (radix16 ds))"]) simp
    next
      case octal
      define ds where "ds = takeWhile dec_digit (drop (i + 1) s)"
      let ?i' = "i + 1 + length ds"
      have c: "?c \<noteq> 0x5C" using octal(1) by (auto simp: fixed_escape_def)
      have run: "resolve_loop s (length s) i r =
          resolve_loop s (length s) ?i' (r @ encode_codepoint (of_nat (radix8 ds)))"
        using resolve_loop_octal [OF nxt bs octal, of r]
        by (simp add: parse_octal_number_eq ds_def)
      have far: "trailing_backslashes (drop i s) = trailing_backslashes (drop (i + 2) s)"
        by (rule trailing_backslashes_drop) (use nxt c in simp_all)
      have "?i' \<le> length s \<and>
            trailing_backslashes (drop i s) = trailing_backslashes (drop ?i' s)"
      proof (cases "ds = []")
        case True
        have "trailing_backslashes (drop (i + 1) s) = trailing_backslashes (drop (i + 2) s)"
          by (rule trailing_backslashes_drop) (use nxt c in simp_all)
        with far True nxt show ?thesis by simp
      next
        case False
        from digit_run_last [OF ds_def False]
        have "?i' \<le> length s" "s ! (?i' - 1) \<noteq> 0x5C"
          by (simp_all add: dec_digit_not_backslash)
        moreover from this have "trailing_backslashes (drop i s) = trailing_backslashes (drop ?i' s)"
          by (intro trailing_backslashes_drop) simp_all
        ultimately show ?thesis by simp
      qed
      with run show ?thesis
        by (intro exI [of _ ?i'] exI [of _ "r @ encode_codepoint (of_nat (radix8 ds))"]) simp
    qed
    then show ?thesis ..
  qed
qed

lemma resolve_loop_fails_iff:
  assumes "i \<le> length s"
  shows "resolve_loop s (length s) i r = Inl MalformedEscape \<longleftrightarrow>
         odd (trailing_backslashes (drop i s))"
  using assms
proof (induction "length s - i" arbitrary: i r rule: less_induct)
  case less
  show ?case
  proof (cases "i < length s")
    case False
    then show ?thesis by (simp add: resolve_loop_end trailing_backslashes_def)
  next
    case True
    from resolve_loop_step [OF True, of r] show ?thesis
    proof (elim disjE conjE exE)
      assume last: "i + 1 = length s" and bs: "s ! i = 0x5C"
        and fail: "resolve_loop s (length s) i r = Inl MalformedEscape"
      from True last bs have "drop i s = [0x5C]"
        by (metis Cons_nth_drop_Suc Suc_eq_plus1 drop_all order_refl)
      with fail show ?thesis by (simp add: trailing_backslashes_def)
    next
      fix i' r'
      assume i': "i < i'" "i' \<le> length s"
        and run: "resolve_loop s (length s) i r = resolve_loop s (length s) i' r'"
        and par: "odd (trailing_backslashes (drop i s)) \<longleftrightarrow>
                  odd (trailing_backslashes (drop i' s))"
      from i' True have "length s - i' < length s - i" by linarith
      from less.hyps [OF this i'(2), of r'] run par show ?thesis by simp
    qed
  qed
qed

lemma encode_codepoint_of_nat_invalid:
  assumes "(0xD800 \<le> v \<and> v < 0xE000) \<or> (0x110000 \<le> v \<and> v < 2 ^ 31)"
  shows "encode_codepoint (of_nat v) = []"
proof -
  from assms have "v < 2 ^ 32" by auto
  then have "unat (of_nat v :: char32) = v" by (simp add: unat_of_nat)
  with assms show ?thesis
    unfolding encode_codepoint_Nil_iff word_less_nat_alt word_le_nat_alt by auto
qed

lemma radix8_101: "radix8 [0x31, 0x30, 0x31] = 65"
  by (simp add: radix8_def)

lemma radix8_19: "radix8 [0x31, 0x39] = 17"
  by (simp add: radix8_def)

lemma radix16_D800: "radix16 [0x44, 0x38, 0x30, 0x30] = 0xD800"
  by (simp add: radix16_def hex_digit_value_def)

subsection \<open>The positions of the scan, and what the loop appends\<close>

lemma fixed_escape_Some_iff:
  "(\<exists>b. fixed_escape c = Some b) \<longleftrightarrow>
   c \<in> {0x66, 0x6E, 0x72, 0x74, 0x76, 0x27, 0x22, 0x5B, 0x5D, 0x5C}"
  by (simp add: fixed_escape_def)

lemma fixed_escape_None_iff:
  "fixed_escape c = None \<longleftrightarrow>
   c \<notin> {0x66, 0x6E, 0x72, 0x74, 0x76, 0x27, 0x22, 0x5B, 0x5D, 0x5C}"
  by (simp add: fixed_escape_def)

text \<open>One iteration: where it fails, or where the next one begins and what it appends.\<close>

lemma resolve_loop_iteration:
  assumes "i < n"
  shows "(i + 1 = n \<and> s ! i = 0x5C \<and> (\<forall>r. resolve_loop s n i r = Inl MalformedEscape)) \<or>
         (\<exists>i' out. i < i' \<and> (visits s n i \<longrightarrow> visits s n i') \<and>
            (\<forall>r. resolve_loop s n i r = resolve_loop s n i' (r @ out)))"
    (is "?fail \<or> ?go")
proof (cases "s ! i = 0x5C")
  case False
  have "\<forall>r. resolve_loop s n i r = resolve_loop s n (i + 1) (r @ [s ! i])"
    using resolve_loop_plain [OF assms False] by blast
  moreover have "visits s n i \<longrightarrow> visits s n (i + 1)"
    using visits.plain [OF _ assms False] by blast
  ultimately have ?go by (intro exI [of _ "i + 1"] exI [of _ "[s ! i]"]) simp
  then show ?thesis ..
next
  case bs: True
  show ?thesis
  proof (cases "i + 1 = n")
    case True
    with resolve_loop_trailing [OF assms bs True] bs show ?thesis by blast
  next
    case False
    with assms have nxt: "i + 1 < n" by linarith
    let ?c = "s ! (i + 1)"
    consider (fixed) b where "fixed_escape ?c = Some b"
      | (hex) "?c = 0x78 \<or> ?c = 0x75"
      | (octal) "fixed_escape ?c = None" "?c \<noteq> 0x78" "?c \<noteq> 0x75"
      by (cases "fixed_escape ?c") auto
    then have ?go
    proof cases
      case fixed
      then have "?c \<in> {0x66, 0x6E, 0x72, 0x74, 0x76, 0x27, 0x22, 0x5B, 0x5D, 0x5C}"
        using fixed_escape_Some_iff [of ?c] by blast
      then have "visits s n i \<longrightarrow> visits s n (i + 2)"
        using visits.fixed [OF _ nxt bs] by blast
      moreover have "\<forall>r. resolve_loop s n i r = resolve_loop s n (i + 2) (r @ [b])"
        using resolve_loop_fixed [OF nxt bs fixed] by blast
      ultimately show ?thesis by (intro exI [of _ "i + 2"] exI [of _ "[b]"]) simp
    next
      case hex
      let ?i' = "snd (parse_hex_number s n (i + 2))"
      have "i + 2 \<le> ?i'" unfolding parse_hex_number_def by (rule parse_hex_loop_ge)
      moreover have "?c \<in> {0x78, 0x75}" using hex by simp
      then have "visits s n i \<longrightarrow> visits s n ?i'"
        using visits.hex [OF _ nxt bs] by blast
      moreover have "\<forall>r. resolve_loop s n i r =
          resolve_loop s n ?i' (r @ encode_codepoint (fst (parse_hex_number s n (i + 2))))"
        using resolve_loop_hex [OF nxt bs hex] by blast
      ultimately show ?thesis
        by (intro exI [of _ ?i'] exI [of _ "encode_codepoint (fst (parse_hex_number s n (i + 2)))"])
          simp
    next
      case octal
      let ?i' = "snd (parse_octal_number s n (i + 1))"
      have "i + 1 \<le> ?i'" unfolding parse_octal_number_def by (rule parse_octal_loop_ge)
      moreover have
        "?c \<notin> {0x66, 0x6E, 0x72, 0x74, 0x76, 0x27, 0x22, 0x5B, 0x5D, 0x5C, 0x78, 0x75}"
        using octal fixed_escape_None_iff [of ?c] by simp
      then have "visits s n i \<longrightarrow> visits s n ?i'"
        using visits.octal [OF _ nxt bs] by blast
      moreover have "\<forall>r. resolve_loop s n i r =
          resolve_loop s n ?i' (r @ encode_codepoint (fst (parse_octal_number s n (i + 1))))"
        using resolve_loop_octal [OF nxt bs octal] by blast
      ultimately show ?thesis
        by (intro exI [of _ ?i']
              exI [of _ "encode_codepoint (fst (parse_octal_number s n (i + 1)))"]) simp
    qed
    then show ?thesis ..
  qed
qed

text \<open>The output so far is a prefix of the result: the loop only appends.\<close>

lemma resolve_loop_append:
  "resolve_loop s n i (r0 @ r) =
     (case resolve_loop s n i r of Inl e \<Rightarrow> Inl e | Inr t \<Rightarrow> Inr (r0 @ t))"
proof (induction "n - i" arbitrary: i r rule: less_induct)
  case less
  show ?case
  proof (cases "i < n")
    case False
    then show ?thesis by (simp add: resolve_loop_end)
  next
    case True
    from resolve_loop_iteration [OF True, of s] show ?thesis
    proof (elim disjE conjE exE)
      assume "\<forall>r. resolve_loop s n i r = Inl MalformedEscape"
      then show ?thesis by simp
    next
      fix i' out
      assume i': "i < i'" and run: "\<forall>r. resolve_loop s n i r = resolve_loop s n i' (r @ out)"
      from i' True have "n - i' < n - i" by linarith
      from less.hyps [OF this, of "r @ out"] run show ?thesis by simp
    qed
  qed
qed

lemma resolve_loop_from_empty:
  "resolve_loop s n i r =
     (case resolve_loop s n i [] of Inl e \<Rightarrow> Inl e | Inr t \<Rightarrow> Inr (r @ t))"
  using resolve_loop_append [of s n i r "[]"] by simp

lemma visits_reached:
  assumes "visits s n j"
  shows "\<exists>r. resolve_loop s n 0 [] = resolve_loop s n j r"
  using assms
proof (induction rule: visits.induct)
  case start
  show ?case by blast
next
  case (plain i)
  with resolve_loop_plain [of i n s] show ?case by metis
next
  case (fixed i)
  then obtain b where "fixed_escape (s ! (i + 1)) = Some b"
    using fixed_escape_Some_iff [of "s ! (i + 1)"] by blast
  with fixed resolve_loop_fixed [of i n s b] show ?case by metis
next
  case (hex i)
  then have "s ! (i + 1) = 0x78 \<or> s ! (i + 1) = 0x75" by simp
  with hex resolve_loop_hex [of i n s] show ?case by metis
next
  case (octal i)
  then have "fixed_escape (s ! (i + 1)) = None" "s ! (i + 1) \<noteq> 0x78" "s ! (i + 1) \<noteq> 0x75"
    using fixed_escape_None_iff [of "s ! (i + 1)"] by simp_all
  with octal resolve_loop_octal [of i n s] show ?case by metis
qed

lemma resolve_loop_fails_visits:
  assumes "visits s n i" and "resolve_loop s n i r = Inl MalformedEscape"
  shows "\<exists>j. visits s n j \<and> j + 1 = n \<and> s ! j = 0x5C"
  using assms
proof (induction "n - i" arbitrary: i r rule: less_induct)
  case less
  show ?case
  proof (cases "i < n")
    case False
    with less.prems(2) show ?thesis by (simp add: resolve_loop_end)
  next
    case True
    from resolve_loop_iteration [OF True, of s] show ?thesis
    proof (elim disjE conjE exE)
      assume "i + 1 = n" "s ! i = 0x5C"
      with less.prems(1) show ?thesis by blast
    next
      fix i' out
      assume i': "i < i'" and v: "visits s n i \<longrightarrow> visits s n i'"
        and run: "\<forall>r. resolve_loop s n i r = resolve_loop s n i' (r @ out)"
      from i' True have "n - i' < n - i" by linarith
      moreover from v less.prems(1) have "visits s n i'" by simp
      moreover from run less.prems(2) have "resolve_loop s n i' (r @ out) = Inl MalformedEscape"
        by simp
      ultimately show ?thesis by (rule less.hyps)
    qed
  qed
qed

lemma resolve_escape_sequence_fails_iff_visits:
  "resolve_escape_sequence s n = Inl MalformedEscape \<longleftrightarrow>
   (\<exists>j. visits s n j \<and> j + 1 = n \<and> s ! j = 0x5C)"
proof
  assume "resolve_escape_sequence s n = Inl MalformedEscape"
  then show "\<exists>j. visits s n j \<and> j + 1 = n \<and> s ! j = 0x5C"
    unfolding resolve_escape_sequence_def
    by (rule resolve_loop_fails_visits [OF visits.start])
next
  assume "\<exists>j. visits s n j \<and> j + 1 = n \<and> s ! j = 0x5C"
  then obtain j where j: "visits s n j" "j + 1 = n" "s ! j = 0x5C" by blast
  from visits_reached [OF j(1)] obtain r where
    "resolve_loop s n 0 [] = resolve_loop s n j r" by blast
  moreover have "resolve_loop s n j r = Inl MalformedEscape"
    by (rule resolve_loop_trailing) (use j in simp_all)
  ultimately show "resolve_escape_sequence s n = Inl MalformedEscape"
    by (simp add: resolve_escape_sequence_def)
qed

text \<open>The loop at position \<open>i\<close> reads only the input from \<open>i\<close> on.\<close>

lemma resolve_loop_shift:
  "resolve_loop (pre @ s) (length pre + length s) (length pre + i) r =
   resolve_loop s (length s) i r"
proof (induction "length s - i" arbitrary: i r rule: less_induct)
  case less
  let ?S = "pre @ s" and ?N = "length pre + length s" and ?I = "length pre + i"
  have N: "?N = length ?S" by simp
  show ?case
  proof (cases "i < length s")
    case False
    then show ?thesis by (simp add: resolve_loop_end)
  next
    case True
    then have I: "?I < ?N" by simp
    have at: "?S ! ?I = s ! i" by (rule nth_append_length_plus)
    have at1: "?S ! (?I + 1) = s ! (i + 1)"
      using nth_append_length_plus [of pre s "i + 1"] by (simp add: add.assoc)
    have IH: "resolve_loop ?S ?N (length pre + i') r' = resolve_loop s (length s) i' r'"
      if "i < i'" for i' r'
      using that True by (intro less.hyps) linarith
    show ?thesis
    proof (cases "s ! i = 0x5C")
      case False
      with at have "?S ! ?I \<noteq> 0x5C" by simp
      from resolve_loop_plain [OF I this, of r] resolve_loop_plain [OF True False, of r]
        IH [of "i + 1" "r @ [s ! i]"]
      show ?thesis by (simp add: at add.assoc)
    next
      case bs: True
      with at have BS: "?S ! ?I = 0x5C" by simp
      show ?thesis
      proof (cases "i + 1 = length s")
        case True
        then have "?I + 1 = ?N" by simp
        from resolve_loop_trailing [OF I BS this, of r]
          resolve_loop_trailing [OF \<open>i < length s\<close> bs True, of r]
        show ?thesis by simp
      next
        case False
        with True have nxt: "i + 1 < length s" by linarith
        then have NXT: "?I + 1 < ?N" by simp
        let ?c = "s ! (i + 1)"
        consider (fixed) b where "fixed_escape ?c = Some b"
          | (hex) "?c = 0x78 \<or> ?c = 0x75"
          | (octal) "fixed_escape ?c = None" "?c \<noteq> 0x78" "?c \<noteq> 0x75"
          by (cases "fixed_escape ?c") auto
        then show ?thesis
        proof cases
          case fixed
          then have "fixed_escape (?S ! (?I + 1)) = Some b" by (simp only: at1)
          from resolve_loop_fixed [OF NXT BS this, of r] resolve_loop_fixed [OF nxt bs fixed, of r]
            IH [of "i + 2" "r @ [b]"]
          show ?thesis by (simp add: add.assoc)
        next
          case hex
          then have HEX: "?S ! (?I + 1) = 0x78 \<or> ?S ! (?I + 1) = 0x75" by (simp only: at1)
          let ?ds = "takeWhile hex_digit (drop (i + 2) s)"
          have d: "drop (?I + 2) ?S = drop (i + 2) s" by (simp add: add.assoc)
          have p: "parse_hex_number ?S ?N (?I + 2) =
              (of_nat (radix16 ?ds), length pre + (i + 2 + length ?ds))"
            unfolding N parse_hex_number_eq d by (simp add: add.assoc)
          have q: "parse_hex_number s (length s) (i + 2) =
              (of_nat (radix16 ?ds), i + 2 + length ?ds)"
            by (rule parse_hex_number_eq)
          from resolve_loop_hex [OF NXT BS HEX, of r] resolve_loop_hex [OF nxt bs hex, of r]
            IH [of "i + 2 + length ?ds" "r @ encode_codepoint (of_nat (radix16 ?ds))"]
          show ?thesis unfolding p q by simp
        next
          case octal
          have OCT: "fixed_escape (?S ! (?I + 1)) = None" "?S ! (?I + 1) \<noteq> 0x78"
            "?S ! (?I + 1) \<noteq> 0x75" unfolding at1 by (fact octal)+
          let ?ds = "takeWhile dec_digit (drop (i + 1) s)"
          have d: "drop (?I + 1) ?S = drop (i + 1) s" by (simp add: add.assoc)
          have p: "parse_octal_number ?S ?N (?I + 1) =
              (of_nat (radix8 ?ds), length pre + (i + 1 + length ?ds))"
            unfolding N parse_octal_number_eq d by (simp add: add.assoc)
          have q: "parse_octal_number s (length s) (i + 1) =
              (of_nat (radix8 ?ds), i + 1 + length ?ds)"
            by (rule parse_octal_number_eq)
          from resolve_loop_octal [OF NXT BS OCT, of r] resolve_loop_octal [OF nxt bs octal, of r]
            IH [of "i + 1 + length ?ds" "r @ encode_codepoint (of_nat (radix8 ?ds))"]
          show ?thesis unfolding p q by simp
        qed
      qed
    qed
  qed
qed

lemma resolve_loop_rest:
  assumes "i \<le> length s"
  shows "resolve_loop s (length s) i r =
     (case resolve_escape_sequence (drop i s) (length s - i) of
        Inl e \<Rightarrow> Inl e | Inr t \<Rightarrow> Inr (r @ t))"
proof -
  have "resolve_loop (take i s @ drop i s) (length (take i s) + length (drop i s))
          (length (take i s) + 0) [] = resolve_loop (drop i s) (length (drop i s)) 0 []"
    by (rule resolve_loop_shift)
  moreover have "length (take i s) = i" using assms by simp
  ultimately have "resolve_loop s (length s) i [] = resolve_loop (drop i s) (length s - i) 0 []"
    using assms by simp
  with resolve_loop_from_empty [of s "length s" i r] show ?thesis
    by (simp add: resolve_escape_sequence_def)
qed

lemma digit_run_bound: "j \<le> length s \<Longrightarrow> j + length (takeWhile P (drop j s)) \<le> length s"
  using length_takeWhile_le [of P "drop j s"] by simp

section \<open>Claims about the escape resolver\<close>

text \<open>
  The second backslash of the escape \<^verbatim>\<open>\\\<close> is consumed by that escape: the input of two
  backslashes resolves to one backslash, although its last character is a backslash.
\<close>

lemma resolve_escape_sequence_escaped_backslash:
  "resolve_escape_sequence [0x5C, 0x5C] 2 = Inr [0x5C] \<and> \<not> visits [0x5C, 0x5C] 2 1"
proof -
  have "j \<noteq> 1" if "visits [0x5C, 0x5C] 2 j" for j
    using that
  proof (induction rule: visits.induct)
    case (plain i)
    from plain(2) have "i = 0 \<or> i = Suc 0" by linarith
    with plain(3) show ?case by auto
  qed (simp_all add: parse_hex_number_def parse_octal_number_def)
  then show ?thesis
    by (auto simp add: resolve_escape_sequence_def resolve_loop.simps [of _ _ 0] resolve_loop_end)
qed

text \<open>
  Claim C5. \<open>resolve_escape_sequence\<close> fails with \<open>MalformedEscape\<close> exactly when a backslash
  that begins an escape is the last character of the input, with nothing following it:
  when the loop begins an iteration at a backslash in the last position. Every other input
  succeeds: among them the empty string, which gives the empty string, and the escapes
  with no digit, \<^verbatim>\<open>\x\<close> and a backslash before a character such as \<^verbatim>\<open>q\<close>, which give the
  code point 0 as a NUL byte. Counted from the end, the failing inputs are those that end
  in an odd number of backslashes.
\<close>

theorem resolve_escape_sequence_malformed_iff:
  "(resolve_escape_sequence s (length s) = Inl MalformedEscape \<longleftrightarrow>
      (\<exists>j. visits s (length s) j \<and> j + 1 = length s \<and> s ! j = 0x5C)) \<and>
   ((\<exists>r. resolve_escape_sequence s (length s) = Inr r) \<longleftrightarrow>
      \<not> (\<exists>j. visits s (length s) j \<and> j + 1 = length s \<and> s ! j = 0x5C)) \<and>
   (resolve_escape_sequence s (length s) = Inl MalformedEscape \<longleftrightarrow>
      odd (trailing_backslashes s)) \<and>
   ((\<exists>r. resolve_escape_sequence s (length s) = Inr r) \<longleftrightarrow> even (trailing_backslashes s)) \<and>
   resolve_escape_sequence [] 0 = Inr [] \<and>
   resolve_escape_sequence [0x5C, 0x78] 2 = Inr [0x00] \<and>
   resolve_escape_sequence [0x5C, 0x71] 2 = Inr [0x00, 0x71]"
proof -
  have vis: "resolve_escape_sequence s (length s) = Inl MalformedEscape \<longleftrightarrow>
      (\<exists>j. visits s (length s) j \<and> j + 1 = length s \<and> s ! j = 0x5C)"
    by (rule resolve_escape_sequence_fails_iff_visits)
  have iff: "resolve_escape_sequence s (length s) = Inl MalformedEscape \<longleftrightarrow>
      odd (trailing_backslashes s)"
    using resolve_loop_fails_iff [of 0 s "[]"] by (simp add: resolve_escape_sequence_def)
  have total: "(\<exists>r. resolve_escape_sequence s (length s) = Inr r) \<longleftrightarrow>
        resolve_escape_sequence s (length s) \<noteq> Inl MalformedEscape"
    by (cases "resolve_escape_sequence s (length s)") (auto intro: error.exhaust)
  from total vis have ok_vis: "(\<exists>r. resolve_escape_sequence s (length s) = Inr r) \<longleftrightarrow>
      \<not> (\<exists>j. visits s (length s) j \<and> j + 1 = length s \<and> s ! j = 0x5C)" by simp
  from total iff have ok: "(\<exists>r. resolve_escape_sequence s (length s) = Inr r) \<longleftrightarrow>
      even (trailing_backslashes s)" by simp
  have e0: "resolve_escape_sequence [] 0 = Inr []"
    by (simp add: resolve_escape_sequence_def resolve_loop_end)
  have e1: "resolve_escape_sequence [0x5C, 0x78] 2 = Inr [0x00]"
    by (simp add: resolve_escape_sequence_def resolve_loop.simps [of _ _ 0]
        resolve_loop_end parse_hex_number_def parse_hex_loop.simps encode_codepoint_eq)
  have e2: "resolve_escape_sequence [0x5C, 0x71] 2 = Inr [0x00, 0x71]"
    by (simp add: resolve_escape_sequence_def resolve_loop.simps [of _ _ 0]
        resolve_loop.simps [of _ _ "Suc 0"] is_digit_def
        resolve_loop_end parse_octal_number_def parse_octal_loop.simps encode_codepoint_eq)
  from vis ok_vis iff ok e0 e1 e2 show ?thesis by blast
qed

theorem resolve_escape_sequence_malformed_iff_witness:
  "resolve_escape_sequence [0x61, 0x5C] 2 = Inl MalformedEscape \<and>
   (\<exists>r. resolve_escape_sequence [0x5C, 0x5C] 2 = Inr r) \<and>
   (\<exists>r. resolve_escape_sequence [0x61, 0x5C, 0x6E] 3 = Inr r)"
proof -
  let ?s = "[0x61, 0x5C] :: byte list"
  have "visits ?s (length ?s) (0 + 1)"
    by (rule visits.plain [OF visits.start]) simp_all
  then have "\<exists>j. visits ?s (length ?s) j \<and> j + 1 = length ?s \<and> ?s ! j = 0x5C"
    by (intro exI [of _ "0 + 1"]) simp
  with resolve_escape_sequence_malformed_iff [of ?s]
  have a: "resolve_escape_sequence ?s (length ?s) = Inl MalformedEscape" by blast
  have "even (trailing_backslashes [0x5C, 0x5C])" "even (trailing_backslashes [0x61, 0x5C, 0x6E])"
    by (simp_all add: trailing_backslashes_def)
  with resolve_escape_sequence_malformed_iff [of "[0x5C, 0x5C]"]
    resolve_escape_sequence_malformed_iff [of "[0x61, 0x5C, 0x6E]"]
  have b: "\<exists>r. resolve_escape_sequence [0x5C, 0x5C] (length [0x5C, 0x5C :: byte]) = Inr r"
    and c: "\<exists>r. resolve_escape_sequence [0x61, 0x5C, 0x6E]
           (length [0x61, 0x5C, 0x6E :: byte]) = Inr r"
    by blast+
  have l: "length ?s = 2" "length [0x5C, 0x5C :: byte] = 2" "length [0x61, 0x5C, 0x6E :: byte] = 3"
    by simp_all
  from a b c show ?thesis unfolding l by blast
qed

text \<open>
  Claim C6. At a backslash followed by a character that is none of
  \<^verbatim>\<open>f n r t v ' " [ ] \ x u\<close>, the loop consumes the longest run of decimal digits 0 to 9
  that starts right after the backslash, reads it in radix 8 (the digits 8 and 9 with
  their own values, in 32-bit arithmetic), appends the encoding of that code point and
  goes on after the run. The result is the output so far, then that encoding, then what
  the input after the run resolves to (or the failure of that rest); when the run ends
  the input, the result is the output so far and the encoding. So \<^verbatim>\<open>\101\<close> gives \<^verbatim>\<open>A\<close>
  (code 65) and \<^verbatim>\<open>\19\<close> gives the byte 17 (1 * 8 + 9).
\<close>

theorem octal_escape:
  assumes "i + 1 < length s" and "s ! i = 0x5C"
    and "s ! (i + 1) \<notin> {0x66, 0x6E, 0x72, 0x74, 0x76, 0x27, 0x22, 0x5B, 0x5D, 0x5C, 0x78, 0x75}"
    and "ds = takeWhile dec_digit (drop (i + 1) s)"
  shows "resolve_loop s (length s) i r =
           resolve_loop s (length s) (i + 1 + length ds)
             (r @ encode_codepoint (of_nat (radix8 ds))) \<and>
         resolve_loop s (length s) i r =
           (case resolve_escape_sequence (drop (i + 1 + length ds) s)
                   (length s - (i + 1 + length ds)) of
              Inl e \<Rightarrow> Inl e
            | Inr t \<Rightarrow> Inr (r @ encode_codepoint (of_nat (radix8 ds)) @ t)) \<and>
         (i + 1 + length ds = length s \<longrightarrow>
            resolve_loop s (length s) i r = Inr (r @ encode_codepoint (of_nat (radix8 ds)))) \<and>
         (i = 0 \<longrightarrow>
            resolve_escape_sequence s (length s) =
              (case resolve_escape_sequence (drop (1 + length ds) s)
                      (length s - (1 + length ds)) of
                 Inl e \<Rightarrow> Inl e
               | Inr t \<Rightarrow> Inr (encode_codepoint (of_nat (radix8 ds)) @ t)))"
proof -
  let ?i' = "i + 1 + length ds" and ?enc = "encode_codepoint (of_nat (radix8 ds))"
  from assms(3) have c: "fixed_escape (s ! (i + 1)) = None" "s ! (i + 1) \<noteq> 0x78"
    "s ! (i + 1) \<noteq> 0x75"
    by (simp_all add: fixed_escape_def)
  have step: "resolve_loop s (length s) i r' = resolve_loop s (length s) ?i' (r' @ ?enc)" for r'
    using resolve_loop_octal [OF assms(1,2) c, of r']
    by (simp add: parse_octal_number_eq assms(4))
  have le: "?i' \<le> length s"
    unfolding assms(4) using digit_run_bound [of "i + 1" s dec_digit] assms(1) by simp
  have rest: "resolve_loop s (length s) i r' =
      (case resolve_escape_sequence (drop ?i' s) (length s - ?i') of
         Inl e \<Rightarrow> Inl e | Inr t \<Rightarrow> Inr (r' @ ?enc @ t))" for r'
    unfolding step resolve_loop_rest [OF le] by (simp split: sum.splits)
  have whole: "resolve_loop s (length s) i r = Inr (r @ ?enc)" if "?i' = length s"
    unfolding step that by (simp add: resolve_loop_end)
  have top: "resolve_escape_sequence s (length s) =
      (case resolve_escape_sequence (drop (1 + length ds) s) (length s - (1 + length ds)) of
         Inl e \<Rightarrow> Inl e | Inr t \<Rightarrow> Inr (?enc @ t))" if "i = 0"
    using rest [of "[]"] unfolding that
    by (simp add: resolve_escape_sequence_def split: sum.splits)
  from step [of r] rest [of r] whole top show ?thesis by blast
qed

theorem octal_escape_witness:
  "resolve_escape_sequence [0x5C, 0x31, 0x30, 0x31] 4 = Inr [0x41] \<and>
   resolve_escape_sequence [0x5C, 0x31, 0x39] 3 = Inr [0x11] \<and>
   resolve_escape_sequence [0x61, 0x5C, 0x31, 0x30, 0x31, 0x62] 6 = Inr [0x61, 0x41, 0x62]"
proof -
  let ?s = "[0x5C, 0x31, 0x30, 0x31] :: byte list"
  let ?t = "[0x5C, 0x31, 0x39] :: byte list"
  let ?u = "[0x61, 0x5C, 0x31, 0x30, 0x31, 0x62] :: byte list"
  have l: "length ?s = 4" "length ?t = 3" "length ?u = 6"
    "length [0x31, 0x30, 0x31 :: byte] = 3" "length [0x31, 0x39 :: byte] = 2" by simp_all
  have "0 + 1 + length [0x31, 0x30, 0x31 :: byte] = length ?s \<longrightarrow>
        resolve_loop ?s (length ?s) 0 [] =
          Inr ([] @ encode_codepoint (of_nat (radix8 [0x31, 0x30, 0x31])))"
    by (rule octal_escape [THEN conjunct2, THEN conjunct2, THEN conjunct1])
      (simp_all add: dec_digit_def)
  then have a: "resolve_escape_sequence ?s 4 = Inr [0x41]"
    unfolding l by (simp add: resolve_escape_sequence_def radix8_101 encode_codepoint_eq)
  have "0 + 1 + length [0x31, 0x39 :: byte] = length ?t \<longrightarrow>
        resolve_loop ?t (length ?t) 0 [] =
          Inr ([] @ encode_codepoint (of_nat (radix8 [0x31, 0x39])))"
    by (rule octal_escape [THEN conjunct2, THEN conjunct2, THEN conjunct1])
      (simp_all add: dec_digit_def)
  then have b: "resolve_escape_sequence ?t 3 = Inr [0x11]"
    unfolding l by (simp add: resolve_escape_sequence_def radix8_19 encode_codepoint_eq)
  have "resolve_loop ?u (length ?u) 1 [0x61] =
        resolve_loop ?u (length ?u) (1 + 1 + length [0x31, 0x30, 0x31 :: byte])
          ([0x61] @ encode_codepoint (of_nat (radix8 [0x31, 0x30, 0x31])))"
    by (rule octal_escape [THEN conjunct1]) (simp_all add: dec_digit_def)
  then have "resolve_loop ?u 6 1 [0x61] = resolve_loop ?u 6 5 [0x61, 0x41]"
    unfolding l by (simp add: radix8_101 encode_codepoint_eq)
  then have c: "resolve_escape_sequence ?u 6 = Inr [0x61, 0x41, 0x62]"
    by (simp add: resolve_escape_sequence_def resolve_loop_plain [of 0] resolve_loop_plain [of 5]
        resolve_loop_end)
  from a b c show ?thesis by blast
qed

text \<open>
  Claim C10. At an escape \<^verbatim>\<open>\x\<close> or \<^verbatim>\<open>\u\<close> whose hexadecimal digits denote a surrogate (0xD800
  up to 0xDFFF) or a value from 0x110000 up to \<open>2 ^ 31 - 1\<close>, the loop appends nothing and
  goes on after the digits: the escape leaves no trace in the output and the call does
  not fail because of it. The result is the output so far followed by what the input
  after the digits resolves to.
\<close>

theorem hex_escape_invalid_dropped:
  assumes "i + 1 < length s" and "s ! i = 0x5C"
    and "s ! (i + 1) = 0x78 \<or> s ! (i + 1) = 0x75"
    and "ds = takeWhile hex_digit (drop (i + 2) s)"
    and "(0xD800 \<le> radix16 ds \<and> radix16 ds < 0xE000) \<or>
         (0x110000 \<le> radix16 ds \<and> radix16 ds < 2 ^ 31)"
  shows "resolve_loop s (length s) i r = resolve_loop s (length s) (i + 2 + length ds) r \<and>
         resolve_loop s (length s) i r =
           (case resolve_escape_sequence (drop (i + 2 + length ds) s)
                   (length s - (i + 2 + length ds)) of
              Inl e \<Rightarrow> Inl e | Inr t \<Rightarrow> Inr (r @ t)) \<and>
         (i = 0 \<longrightarrow>
            resolve_escape_sequence s (length s) =
              resolve_escape_sequence (drop (2 + length ds) s) (length s - (2 + length ds)))"
proof -
  let ?i' = "i + 2 + length ds"
  have step: "resolve_loop s (length s) i r' = resolve_loop s (length s) ?i' r'" for r'
    using resolve_loop_hex [OF assms(1,2,3), of r'] encode_codepoint_of_nat_invalid [OF assms(5)]
    by (simp add: parse_hex_number_eq assms(4))
  have le: "?i' \<le> length s"
    unfolding assms(4) using digit_run_bound [of "i + 2" s hex_digit] assms(1) by simp
  have rest: "resolve_loop s (length s) i r' =
      (case resolve_escape_sequence (drop ?i' s) (length s - ?i') of
         Inl e \<Rightarrow> Inl e | Inr t \<Rightarrow> Inr (r' @ t))" for r'
    unfolding step by (rule resolve_loop_rest [OF le])
  have top: "resolve_escape_sequence s (length s) =
      resolve_escape_sequence (drop (2 + length ds) s) (length s - (2 + length ds))" if "i = 0"
    using rest [of "[]"] unfolding that
    by (simp add: resolve_escape_sequence_def split: sum.splits)
  from step [of r] rest [of r] top show ?thesis by blast
qed

theorem hex_escape_invalid_dropped_witness:
  "resolve_escape_sequence [0x61, 0x5C, 0x78, 0x44, 0x38, 0x30, 0x30, 0x7A] 8 = Inr [0x61, 0x7A]"
proof -
  let ?s = "[0x61, 0x5C, 0x78, 0x44, 0x38, 0x30, 0x30, 0x7A] :: byte list"
  let ?ds = "[0x44, 0x38, 0x30, 0x30] :: byte list"
  have l: "length ?s = 8" "length ?ds = 4" by simp_all
  have "resolve_loop ?s (length ?s) 1 [0x61] =
        resolve_loop ?s (length ?s) (1 + 2 + length ?ds) [0x61]"
    by (rule hex_escape_invalid_dropped [THEN conjunct1])
      (simp_all add: hex_digit_def radix16_D800)
  then have "resolve_loop ?s 8 1 [0x61] = resolve_loop ?s 8 7 [0x61]"
    unfolding l by simp
  then show ?thesis
    by (simp add: resolve_escape_sequence_def resolve_loop_plain [of 0] resolve_loop_plain [of 7]
        resolve_loop_end)
qed

end
